theory Spec2Isabelle
  imports Complex_Main "HOL-Library.Sublist" "HOL-Library.AList" "HOL-Library.List_Lexorder"
begin

section \<open>Python strings\<close>

text \<open>
  A Python \<^verbatim>\<open>str\<close> is a sequence of Unicode code points. A code point is a natural
  number, a string a list of them; \<open>ustr\<close> embeds an ASCII literal of the source.
\<close>

type_synonym uchar = nat
type_synonym ustring = "nat list"

definition ustr :: "string \<Rightarrow> ustring" where
  "ustr s = map of_char s"

text \<open>
  \<^verbatim>\<open>hay.find(needle, start)\<close> for \<open>start \<ge> 0\<close>: the lowest index \<open>j \<ge> start\<close> with
  \<open>hay[j:j+len(needle)] == needle\<close>. \<open>None\<close> stands for the source's \<open>-1\<close>.
\<close>

fun find_first :: "'a list \<Rightarrow> 'a list \<Rightarrow> nat option" where
  "find_first needle [] = (if needle = [] then Some 0 else None)"
| "find_first needle (h # hs) =
     (if prefix needle (h # hs) then Some 0 else map_option Suc (find_first needle hs))"

definition str_find :: "'a list \<Rightarrow> 'a list \<Rightarrow> nat \<Rightarrow> nat option" where
  "str_find hay needle start =
     (if length hay < start then None
      else map_option (\<lambda>k. start + k) (find_first needle (drop start hay)))"

text \<open>\<^verbatim>\<open>needle in hay\<close> on strings.\<close>

definition str_in :: "'a list \<Rightarrow> 'a list \<Rightarrow> bool" where
  "str_in needle hay = (find_first needle hay \<noteq> None)"

text \<open>The slice \<open>hay[i:i+len(needle)]\<close> lies within \<open>hay\<close> and equals \<open>needle\<close>.\<close>

definition occurs_at :: "'a list \<Rightarrow> 'a list \<Rightarrow> nat \<Rightarrow> bool" where
  "occurs_at hay needle i =
     (i + length needle \<le> length hay \<and> take (length needle) (drop i hay) = needle)"

text \<open>\<^verbatim>\<open>s.endswith(t)\<close> is \<^const>\<open>suffix\<close>; \<^verbatim>\<open>s[:-k]\<close> for \<open>k \<le> len(s)\<close>:\<close>

definition drop_last :: "nat \<Rightarrow> 'a list \<Rightarrow> 'a list" where
  "drop_last k s = take (length s - k) s"

text \<open>
  Python's whitespace (\<^verbatim>\<open>str.isspace\<close>, what \<^verbatim>\<open>strip()\<close> without arguments removes).
\<close>

definition isspace :: "uchar \<Rightarrow> bool" where
  "isspace c = ((9 \<le> c \<and> c \<le> 13) \<or> (28 \<le> c \<and> c \<le> 32) \<or> c = 133 \<or> c = 160 \<or> c = 5760
     \<or> (8192 \<le> c \<and> c \<le> 8202) \<or> c = 8232 \<or> c = 8233 \<or> c = 8239 \<or> c = 8287 \<or> c = 12288)"

definition lstrip_by :: "('a \<Rightarrow> bool) \<Rightarrow> 'a list \<Rightarrow> 'a list" where
  "lstrip_by P s = dropWhile P s"

definition rstrip_by :: "('a \<Rightarrow> bool) \<Rightarrow> 'a list \<Rightarrow> 'a list" where
  "rstrip_by P s = rev (dropWhile P (rev s))"

definition strip :: "ustring \<Rightarrow> ustring" where
  "strip s = rstrip_by isspace (lstrip_by isspace s)"

text \<open>\<^verbatim>\<open>s.rstrip(chars)\<close> and \<^verbatim>\<open>s.replace(" ", "")\<close>.\<close>

definition rstrip_chars :: "ustring \<Rightarrow> ustring \<Rightarrow> ustring" where
  "rstrip_chars chars s = rstrip_by (\<lambda>c. c \<in> set chars) s"

definition remove_spaces :: "ustring \<Rightarrow> ustring" where
  "remove_spaces s = filter (\<lambda>c. c \<noteq> 32) s"

section \<open>Occurrences of a needle (\<open>_positions\<close>)\<close>

lemma find_first_bound: "find_first needle hay = Some k \<Longrightarrow> k + length needle \<le> length hay"
proof (induction hay arbitrary: k)
  case Nil
  then show ?case by (simp split: if_splits)
next
  case (Cons h hs)
  show ?case
  proof (cases "prefix needle (h # hs)")
    case True
    with Cons.prems show ?thesis using prefix_length_le [of needle "h # hs"] by simp
  next
    case False
    with Cons.prems obtain k' where "find_first needle hs = Some k'" "k = Suc k'"
      by auto
    with Cons.IH show ?thesis by force
  qed
qed

lemma str_find_bounds:
  "str_find hay needle i = Some j \<Longrightarrow> i \<le> j \<and> j + length needle \<le> length hay"
  by (auto simp: str_find_def split: if_splits dest!: find_first_bound)

text \<open>
  The loop of \<open>_positions\<close>: \<open>i\<close> is the scan index, \<open>acc\<close> the list of midpoints
  collected so far.
\<close>

function positions_from :: "'a list \<Rightarrow> 'a list \<Rightarrow> nat \<Rightarrow> int list \<Rightarrow> int list" where
  "positions_from hay needle i acc =
     (case str_find hay needle i of
        None \<Rightarrow> acc
      | Some j \<Rightarrow> positions_from hay needle (j + max 1 (length needle))
                    (acc @ [int (j + length needle div 2)]))"
  by pat_completeness auto
termination
proof (relation "measure (\<lambda>(hay, needle, i, acc). Suc (length hay) - i)")
  show "wf (measure (\<lambda>(hay, needle, i, acc). Suc (length hay) - i))"
    by simp
next
  fix hay needle :: "'a list" and i :: nat and acc :: "int list" and j :: nat
  assume "str_find hay needle i = Some j"
  then have "i \<le> j" "j \<le> length hay"
    using str_find_bounds [of hay needle i j] by auto
  then show "((hay, needle, j + max 1 (length needle), acc @ [int (j + length needle div 2)]),
              (hay, needle, i, acc))
             \<in> measure (\<lambda>(hay, needle, i, acc). Suc (length hay) - i)"
    by auto
qed

declare positions_from.simps [simp del]

definition positions :: "'a list \<Rightarrow> 'a list \<Rightarrow> int list" where
  "positions hay needle = positions_from hay needle 0 []"

section \<open>Errors and loops that may raise\<close>

datatype error = KeyError | ValueError | ZeroDivisionError | FileNotFoundError

text \<open>
  A \<^verbatim>\<open>for\<close> loop whose body updates the loop state or raises: the first error ends
  the loop.
\<close>

fun for_each :: "('a \<Rightarrow> 's \<Rightarrow> error + 's) \<Rightarrow> 'a list \<Rightarrow> 's \<Rightarrow> error + 's" where
  "for_each body [] st = Inr st"
| "for_each body (x # xs) st =
     (case body x st of Inl e \<Rightarrow> Inl e | Inr st' \<Rightarrow> for_each body xs st')"

section \<open>The library functions the program calls\<close>

text \<open>
  \<^verbatim>\<open>str.lower\<close>, \<^verbatim>\<open>unicodedata.normalize("NFD", _)\<close> and
  \<^verbatim>\<open>unicodedata.category(_) == "Mn"\<close> are given by the Unicode character database, which
  is no part of the program; the order in which \<^verbatim>\<open>list(variants)\<close> enumerates a set is
  not fixed by the language. The program is modelled over a record of these four.
\<close>

record pylib =
  py_lower :: "ustring \<Rightarrow> ustring"
  py_nfd :: "ustring \<Rightarrow> ustring"
  py_is_Mn :: "uchar \<Rightarrow> bool"
  py_list_of_set :: "ustring set \<Rightarrow> ustring list"

text \<open>
  The tables of the database (Unicode 14.0) for the code points below 256 (Basic Latin
  and Latin-1 Supplement) and for the combining diacritical marks 768..879 (U+0300 to
  U+036F): lowercase mapping, canonical decomposition, canonical combining class and
  the category \<open>Mn\<close>. The table of combining classes also has the spacing marks
  U+1715, U+302E and U+302F, which have a class but are not of category \<open>Mn\<close>. On
  every other code point this instance is the identity, of class 0 and not \<open>Mn\<close>, so
  it agrees with the library on the strings of the code points named here.
\<close>

definition latin1_lower_char :: "uchar \<Rightarrow> uchar" where
  "latin1_lower_char c =
     (if (65 \<le> c \<and> c \<le> 90) \<or> (192 \<le> c \<and> c \<le> 222 \<and> c \<noteq> 215) then c + 32 else c)"

definition latin1_decomp_table :: "(uchar \<times> ustring) list" where
  "latin1_decomp_table =
    [(192, [65, 768]), (193, [65, 769]), (194, [65, 770]), (195, [65, 771]), (196, [65, 776]),
     (197, [65, 778]), (199, [67, 807]), (200, [69, 768]), (201, [69, 769]), (202, [69, 770]),
     (203, [69, 776]), (204, [73, 768]), (205, [73, 769]), (206, [73, 770]), (207, [73, 776]),
     (209, [78, 771]), (210, [79, 768]), (211, [79, 769]), (212, [79, 770]), (213, [79, 771]),
     (214, [79, 776]), (217, [85, 768]), (218, [85, 769]), (219, [85, 770]), (220, [85, 776]),
     (221, [89, 769]),
     (224, [97, 768]), (225, [97, 769]), (226, [97, 770]), (227, [97, 771]), (228, [97, 776]),
     (229, [97, 778]), (231, [99, 807]), (232, [101, 768]), (233, [101, 769]), (234, [101, 770]),
     (235, [101, 776]), (236, [105, 768]), (237, [105, 769]), (238, [105, 770]), (239, [105, 776]),
     (241, [110, 771]), (242, [111, 768]), (243, [111, 769]), (244, [111, 770]), (245, [111, 771]),
     (246, [111, 776]), (249, [117, 768]), (250, [117, 769]), (251, [117, 770]), (252, [117, 776]),
     (253, [121, 769]), (255, [121, 776]),
     (832, [768]), (833, [769]), (835, [787]), (836, [776, 769])]"

definition latin1_decomp :: "uchar \<Rightarrow> ustring" where
  "latin1_decomp c = (case map_of latin1_decomp_table c of None \<Rightarrow> [c] | Some d \<Rightarrow> d)"

text \<open>
  Rows \<open>(first, last, class)\<close>: the canonical combining class of a range of code
  points; a code point in no row has class 0.
\<close>

definition combining_class_table :: "(uchar \<times> uchar \<times> nat) list" where
  "combining_class_table =
    [(768, 788, 230), (789, 789, 232), (790, 793, 220), (794, 794, 232), (795, 795, 216),
     (796, 800, 220), (801, 802, 202), (803, 806, 220), (807, 808, 202), (809, 819, 220),
     (820, 824, 1), (825, 828, 220), (829, 836, 230), (837, 837, 240), (838, 838, 230),
     (839, 841, 220), (842, 844, 230), (845, 846, 220), (847, 847, 0), (848, 850, 230),
     (851, 854, 220), (855, 855, 230), (856, 856, 232), (857, 858, 220), (859, 859, 230),
     (860, 860, 233), (861, 862, 234), (863, 863, 233), (864, 865, 234), (866, 866, 233),
     (867, 879, 230), (5909, 5909, 9), (12334, 12335, 224)]"

definition combining_class :: "uchar \<Rightarrow> nat" where
  "combining_class c =
     (case find (\<lambda>(lo, hi, v). lo \<le> c \<and> c \<le> hi) combining_class_table of
        None \<Rightarrow> 0
      | Some (lo, hi, v) \<Rightarrow> v)"

text \<open>
  NFD is the canonical decomposition followed by the canonical ordering: a character of
  non-zero combining class moves in front of the characters of higher class that
  precede it (\<open>insert_mark\<close> works on the reversed output, nearest character first).
\<close>

fun insert_mark :: "uchar \<Rightarrow> ustring \<Rightarrow> ustring" where
  "insert_mark c [] = [c]"
| "insert_mark c (d # ds) =
     (if combining_class c \<noteq> 0 \<and> combining_class c < combining_class d
      then d # insert_mark c ds else c # d # ds)"

definition canonical_order :: "ustring \<Rightarrow> ustring" where
  "canonical_order s = rev (fold insert_mark s [])"

definition latin1_is_Mn :: "uchar \<Rightarrow> bool" where
  "latin1_is_Mn c = (768 \<le> c \<and> c \<le> 879)"

definition latin1_lib :: pylib where
  "latin1_lib =
     \<lparr> py_lower = map latin1_lower_char,
       py_nfd = (\<lambda>s. canonical_order (concat (map latin1_decomp s))),
       py_is_Mn = latin1_is_Mn,
       py_list_of_set = sorted_list_of_set \<rparr>"



section \<open>Text normalizer (\<open>_normalize\<close>)\<close>

definition normalize_text :: "pylib \<Rightarrow> ustring \<Rightarrow> ustring" where
  "normalize_text L s = filter (\<lambda>c. \<not> py_is_Mn L c) (py_nfd L (py_lower L s))"

section \<open>Lexicon\<close>

definition ADJ_SCALE :: "(int \<times> ustring list) list" where
  "ADJ_SCALE =
    [(1, [ustr ''horrivel'', ustr ''nojento'', ustr ''terrivel'']),
     (2, [ustr ''ruim'', ustr ''desagradavel'', ustr ''ofensivo'']),
     (3, [ustr ''mediano'', ustr ''sem graca'', ustr ''irrelevante'']),
     (4, [ustr ''bom'', ustr ''agradavel'', ustr ''satisfatorio'']),
     (5, [ustr ''incrivel'', ustr ''impressionante'', ustr ''surpreendente''])]"

text \<open>
  \<open>_expand_adj_variants\<close>: \<open>variants\<close> is a set; the two irregular words return early,
  the ending rules are tried one after the other. The result is the set enumerated as
  a list by the library.
\<close>

definition expand_variants_set :: "ustring \<Rightarrow> ustring set" where
  "expand_variants_set a =
     (if a = ustr ''bom'' then {a} \<union> set [ustr ''boa'', ustr ''bons'', ustr ''boas'']
      else if a = ustr ''ruim'' then insert (ustr ''ruins'') {a}
      else
        let v0 = {a};
            v1 = (if suffix (ustr ''o'') a
                  then v0 \<union> set [drop_last 1 a @ ustr ''a'', drop_last 1 a @ ustr ''os'',
                                    drop_last 1 a @ ustr ''as'']
                  else v0);
            v2 = (if suffix (ustr ''ivel'') a then insert (drop_last 4 a @ ustr ''iveis'') v1 else v1);
            v3 = (if suffix (ustr ''vel'') a then insert (drop_last 3 a @ ustr ''veis'') v2 else v2);
            v4 = (if suffix (ustr ''el'') a then insert (drop_last 2 a @ ustr ''eis'') v3 else v3);
            v5 = (if suffix (ustr ''ente'') a \<or> suffix (ustr ''ante'') a
                  then insert (a @ ustr ''s'') v4 else v4);
            v6 = (if suffix (ustr ''ivo'') a
                  then v5 \<union> set [drop_last 3 a @ ustr ''iva'', drop_last 3 a @ ustr ''ivos'',
                                    drop_last 3 a @ ustr ''ivas'']
                  else v5)
        in v6)"

definition expand_adj_variants :: "pylib \<Rightarrow> ustring \<Rightarrow> ustring list" where
  "expand_adj_variants L adj = py_list_of_set L (expand_variants_set adj)"

text \<open>
  \<open>_build_adj_index\<close>: per score, the variants of all its adjectives, duplicates removed
  keeping the first occurrence (the \<open>seen\<close>/\<open>uniq\<close> loop). A \<^verbatim>\<open>dict\<close> is an association
  list in insertion order; \<open>idx[score] = uniq\<close> is \<^const>\<open>AList.update\<close>.
\<close>

definition uniq_step :: "'a \<Rightarrow> 'a set \<times> 'a list \<Rightarrow> 'a set \<times> 'a list" where
  "uniq_step x st = (if x \<notin> fst st then (insert x (fst st), snd st @ [x]) else st)"

definition uniq_list :: "'a list \<Rightarrow> 'a list" where
  "uniq_list bucket = snd (fold uniq_step bucket ({}, []))"

definition build_adj_index :: "pylib \<Rightarrow> (int \<times> ustring list) list \<Rightarrow> (int \<times> ustring list) list" where
  "build_adj_index L scale =
     fold (\<lambda>(score, adjs) idx.
             AList.update score (uniq_list (concat (map (expand_adj_variants L) adjs))) idx)
          scale []"

definition ADJ_IDX :: "pylib \<Rightarrow> (int \<times> ustring list) list" where
  "ADJ_IDX L = build_adj_index L ADJ_SCALE"

definition FOOD_KW :: "ustring list" where
  "FOOD_KW = [ustr ''comida'', ustr ''pastel'', ustr ''sanduiche'', ustr ''sanduiches'',
     ustr ''frango'', ustr ''hamburguer'', ustr ''hamburgueres'', ustr ''cafe'', ustr ''doces'',
     ustr ''donuts'', ustr ''pratos'', ustr ''saladas'', ustr ''sopas'', ustr ''cookie'',
     ustr ''cookies'']"

definition SERVICE_KW :: "ustring list" where
  "SERVICE_KW = [ustr ''atendimento'', ustr ''funcionarios'', ustr ''garcons'', ustr ''servico'',
     ustr ''equipe'', ustr ''baristas'', ustr ''garcom'', ustr ''espera'']"

section \<open>Sentence scorer (\<open>_score_for_sentence\<close>)\<close>

text \<open>Python's \<^verbatim>\<open>min\<close> of an iterable raises \<open>ValueError\<close> when it is empty.\<close>

definition py_min :: "int list \<Rightarrow> error + int" where
  "py_min xs = (if xs = [] then Inl ValueError else Inr (min_list xs))"

text \<open>Comparison of the tuples \<open>(dist, -desired)\<close>: lexicographic (\<open>distance\<close> is the source's \<open>dist\<close>).\<close>

definition tuple_less :: "int \<times> int \<Rightarrow> int \<times> int \<Rightarrow> bool" where
  "tuple_less a b = (fst a < fst b \<or> (fst a = fst b \<and> snd a < snd b))"

text \<open>The loop state is \<open>(best, best_score)\<close>.\<close>

type_synonym best_state = "(int \<times> int) option \<times> int option"

definition consider_cand :: "int \<Rightarrow> int \<Rightarrow> best_state \<Rightarrow> best_state" where
  "consider_cand desired distance st =
     (let cand = (distance, - desired) in
      case fst st of
        None \<Rightarrow> (Some cand, Some desired)
      | Some best \<Rightarrow> if tuple_less cand best then (Some cand, Some desired) else st)"

definition scan_occurrence :: "int list \<Rightarrow> int \<Rightarrow> int \<Rightarrow> best_state \<Rightarrow> error + best_state" where
  "scan_occurrence target_pos desired apos st =
     (case py_min (map (\<lambda>tpos. \<bar>apos - tpos\<bar>) target_pos) of
        Inl e \<Rightarrow> Inl e
      | Inr distance \<Rightarrow> Inr (consider_cand desired distance st))"

definition scan_level ::
  "(int \<times> ustring list) list \<Rightarrow> ustring \<Rightarrow> int list \<Rightarrow> int \<Rightarrow> best_state \<Rightarrow> error + best_state" where
  "scan_level idx s target_pos desired st =
     (case map_of idx desired of
        None \<Rightarrow> Inl KeyError
      | Some adjs \<Rightarrow>
          for_each (\<lambda>adj. for_each (scan_occurrence target_pos desired) (positions s adj)) adjs st)"

definition score_for_sentence :: "pylib \<Rightarrow> ustring \<Rightarrow> ustring list \<Rightarrow> error + int" where
  "score_for_sentence L sentence target_terms =
     (let s = normalize_text L sentence in
      if \<not> list_ex (\<lambda>t. str_in t s) target_terms then Inr 3
      else
        let target_pos = concat (map (positions s) target_terms) in
        if target_pos = [] then Inr 3
        else
          case for_each (scan_level (ADJ_IDX L) s target_pos) [5, 4, 3, 2, 1] (None, None) of
            Inl e \<Rightarrow> Inl e
          | Inr st \<Rightarrow> Inr (case snd st of Some best_score \<Rightarrow> best_score | None \<Rightarrow> 3))"

text \<open>
  The candidate space of the scorer, as a list of pairs \<open>(distance, level)\<close>: one pair
  for every level, every surface form of the level and every occurrence of the form;
  the distance is that of the occurrence's midpoint to the nearest keyword midpoint.
  \<open>best_candidate\<close> says that a pair has the least distance of the space and, among
  the pairs at that distance, the highest level.
\<close>

definition nearest_distance :: "int list \<Rightarrow> int \<Rightarrow> int" where
  "nearest_distance target_pos apos = Min ((\<lambda>tpos. \<bar>apos - tpos\<bar>) ` set target_pos)"

definition level_candidates ::
  "(int \<times> ustring list) list \<Rightarrow> ustring \<Rightarrow> int list \<Rightarrow> int \<Rightarrow> (int \<times> int) list" where
  "level_candidates idx s target_pos level =
     (case map_of idx level of
        None \<Rightarrow> []
      | Some adjs \<Rightarrow>
          concat (map (\<lambda>adj. map (\<lambda>apos. (nearest_distance target_pos apos, level))
                                   (positions s adj)) adjs))"

definition candidates :: "(int \<times> ustring list) list \<Rightarrow> ustring \<Rightarrow> int list \<Rightarrow> (int \<times> int) list" where
  "candidates idx s target_pos = concat (map (level_candidates idx s target_pos) [1, 2, 3, 4, 5])"

definition best_candidate :: "(int \<times> int) set \<Rightarrow> int \<times> int \<Rightarrow> bool" where
  "best_candidate C c =
     (c \<in> C \<and> (\<forall>c' \<in> C. fst c \<le> fst c' \<and> (fst c' = fst c \<longrightarrow> snd c' \<le> snd c)))"

text \<open>
  For the proofs: the loop body on a pair, and the candidates in the order in which the
  loops visit them.
\<close>

definition consider_pair :: "int \<times> int \<Rightarrow> best_state \<Rightarrow> best_state" where
  "consider_pair c = consider_cand (snd c) (fst c)"

definition loop_candidates ::
  "(int \<times> ustring list) list \<Rightarrow> ustring \<Rightarrow> int list \<Rightarrow> (int \<times> int) list" where
  "loop_candidates idx s target_pos = concat (map (level_candidates idx s target_pos) [5, 4, 3, 2, 1])"

section \<open>Review loader and segmenter (\<open>fetch_restaurant_data\<close>)\<close>

text \<open>
  \<open>_load_reviews\<close> reads the corpus file or raises \<open>FileNotFoundError\<close>; its result
  is the first argument of \<open>fetch_restaurant_data\<close> below. The corpus is a
  \<^verbatim>\<open>dict\<close> from names to review texts, in insertion order.
\<close>

type_synonym corpus = "(ustring \<times> ustring) list"

definition name_matches :: "pylib \<Rightarrow> ustring \<Rightarrow> ustring \<Rightarrow> bool" where
  "name_matches L q name =
     (let n = normalize_text L name in
      q = n \<or> str_in q n \<or> str_in n q \<or> str_in (remove_spaces q) (remove_spaces n))"

text \<open>The two loops that choose a name: each stops at the first key that matches.\<close>

definition choose_name :: "pylib \<Rightarrow> corpus \<Rightarrow> ustring \<Rightarrow> ustring option" where
  "choose_name L reviews restaurant_name =
     (let q = normalize_text L restaurant_name in
      case find (name_matches L q) (map fst reviews) of
        Some name \<Rightarrow> Some name
      | None \<Rightarrow> find (\<lambda>name. str_in q (normalize_text L name)) (map fst reviews))"

text \<open>The character loop: the state is \<open>(sentences, acc)\<close>.\<close>

definition split_step :: "uchar \<Rightarrow> ustring list \<times> ustring \<Rightarrow> ustring list \<times> ustring" where
  "split_step ch st =
     (let acc = snd st @ [ch] in
      if ch \<in> set (ustr ''.!?'')
      then (let frag = strip acc in
            (if frag \<noteq> [] then fst st @ [frag] else fst st, []))
      else (fst st, acc))"

definition split_sentences :: "ustring \<Rightarrow> ustring list" where
  "split_sentences raw =
     (let st = fold split_step raw ([], []);
          sentences = (if strip (snd st) \<noteq> [] then fst st @ [strip (snd st)] else fst st)
      in map (\<lambda>s. rstrip_chars (ustr ''.!?'') (strip s)) (filter (\<lambda>s. strip s \<noteq> []) sentences))"

definition fetch_restaurant_data ::
  "pylib \<Rightarrow> error + corpus \<Rightarrow> ustring \<Rightarrow> error + (ustring \<times> ustring list) list" where
  "fetch_restaurant_data L loaded restaurant_name =
     (case loaded of
        Inl e \<Rightarrow> Inl e
      | Inr reviews \<Rightarrow>
          (case choose_name L reviews restaurant_name of
             None \<Rightarrow> Inr [(restaurant_name, [])]
           | Some chosen_name \<Rightarrow>
               (case map_of reviews chosen_name of
                  None \<Rightarrow> Inl KeyError
                | Some raw \<Rightarrow> Inr [(chosen_name, split_sentences raw)])))"

section \<open>Score aggregator (\<open>calculate_overall_score\<close>)\<close>

text \<open>
  A \<^verbatim>\<open>float\<close> is the real number it denotes. Every arithmetic operation, \<^verbatim>\<open>math.sqrt\<close>
  and the conversions from \<^verbatim>\<open>int\<close> and from a decimal string return the exact result
  rounded to the nearest number with a 53-bit significand, ties to even
  (\<open>float_round\<close>; the exponent range is taken unbounded). \<^verbatim>\<open>f"{x:.3f}"\<close> is the
  decimal with three places nearest to \<open>x\<close>, ties to even: \<open>format_3f\<close> gives it in
  thousandths. \<open>total_sum\<close> is the source's \<open>total\<close>.
\<close>

definition round_half_even :: "real \<Rightarrow> int" where
  "round_half_even y =
     (let f = \<lfloor>y\<rfloor> in
      if y - of_int f < 1 / 2 then f
      else if 1 / 2 < y - of_int f then f + 1
      else if even f then f else f + 1)"

definition float_round :: "real \<Rightarrow> real" where
  "float_round x =
     (if x = 0 then 0
      else let ulp = 2 powr (of_int \<lfloor>log 2 \<bar>x\<bar>\<rfloor> - 52)
           in of_int (round_half_even (x / ulp)) * ulp)"

definition math_sqrt :: "real \<Rightarrow> error + real" where
  "math_sqrt x = (if x < 0 then Inl ValueError else Inr (float_round (sqrt x)))"

definition format_3f :: "real \<Rightarrow> int" where
  "format_3f x = round_half_even (x * 1000)"

definition float_of_3f :: "int \<Rightarrow> real" where
  "float_of_3f k = float_round (of_int k / 1000)"

definition add_pair :: "int list \<Rightarrow> int list \<Rightarrow> nat \<Rightarrow> real \<Rightarrow> error + real" where
  "add_pair food_scores customer_service_scores i total_sum =
     (let f = float_round (of_int (food_scores ! i));
          s = float_round (of_int (customer_service_scores ! i))
      in case math_sqrt s of
           Inl e \<Rightarrow> Inl e
         | Inr r \<Rightarrow> Inr (float_round (total_sum + float_round (\<bar>f\<bar> * r))))"

definition calculate_overall_score ::
  "ustring \<Rightarrow> int list \<Rightarrow> int list \<Rightarrow> error + (ustring \<times> real) list" where
  "calculate_overall_score restaurant_name food_scores customer_service_scores =
     (if food_scores = [] \<or> customer_service_scores = [] then Inr [(restaurant_name, 0)]
      else
        let N = min (length food_scores) (length customer_service_scores) in
        case for_each (add_pair food_scores customer_service_scores) [0..<N] 0 of
          Inl e \<Rightarrow> Inl e
        | Inr total_sum \<Rightarrow>
            (case math_sqrt 125 of
               Inl e \<Rightarrow> Inl e
             | Inr r \<Rightarrow>
                 let denom = float_round (float_round (of_nat N) * r) in
                 if denom = 0 then Inl ZeroDivisionError
                 else
                   let score = float_round (float_round (total_sum * 10) / denom)
                   in Inr [(restaurant_name, float_of_3f (format_3f score))]))"

section \<open>Dimension analyzer (\<open>analyze_reviews\<close>)\<close>

record scores =
  food_scores :: "int list"
  customer_service_scores :: "int list"

text \<open>
  One dimension of the loop body: score the sentence when the dimension has not been
  found yet and the sentence holds one of its keywords.
\<close>

definition first_score :: "pylib \<Rightarrow> ustring list \<Rightarrow> ustring \<Rightarrow> int option \<Rightarrow> error + int option" where
  "first_score L kw sent first =
     (if first = None \<and> list_ex (\<lambda>k. str_in k (normalize_text L sent)) kw
      then (case score_for_sentence L sent kw of Inl e \<Rightarrow> Inl e | Inr v \<Rightarrow> Inr (Some v))
      else Inr first)"

text \<open>The loop, with its \<^verbatim>\<open>break\<close>; the state is \<open>(first_food, first_service)\<close>.\<close>

fun analyze_loop ::
  "pylib \<Rightarrow> ustring list \<Rightarrow> int option \<times> int option \<Rightarrow> error + (int option \<times> int option)" where
  "analyze_loop L [] st = Inr st"
| "analyze_loop L (sent # rest) st =
     (case first_score L FOOD_KW sent (fst st) of
        Inl e \<Rightarrow> Inl e
      | Inr first_food \<Rightarrow>
          (case first_score L SERVICE_KW sent (snd st) of
             Inl e \<Rightarrow> Inl e
           | Inr first_service \<Rightarrow>
               if first_food \<noteq> None \<and> first_service \<noteq> None
               then Inr (first_food, first_service)
               else analyze_loop L rest (first_food, first_service)))"

definition analyze_reviews :: "pylib \<Rightarrow> ustring list \<Rightarrow> error + scores" where
  "analyze_reviews L review_sentences =
     (case analyze_loop L review_sentences (None, None) of
        Inl e \<Rightarrow> Inl e
      | Inr st \<Rightarrow>
          Inr \<lparr> food_scores = [] @ [case fst st of None \<Rightarrow> 3 | Some v \<Rightarrow> v],
                customer_service_scores = [] @ [case snd st of None \<Rightarrow> 3 | Some v \<Rightarrow> v] \<rparr>)"

section \<open>Properties of the occurrence scan\<close>

lemma prefix_iff_take: "prefix needle hay \<longleftrightarrow> length needle \<le> length hay \<and> take (length needle) hay = needle"
  by (metis prefix_length_le take_is_prefix prefix_order.eq_iff take_all_iff append_eq_conv_conj prefix_def)

lemma find_first_occurs: "find_first needle hay = Some k \<Longrightarrow> occurs_at hay needle k"
proof (induction hay arbitrary: k)
  case Nil
  then show ?case by (simp add: occurs_at_def split: if_splits)
next
  case (Cons h hs)
  show ?case
  proof (cases "prefix needle (h # hs)")
    case True
    with Cons.prems have "k = 0" by simp
    with True show ?thesis by (simp add: occurs_at_def prefix_iff_take)
  next
    case False
    with Cons.prems obtain k' where k': "find_first needle hs = Some k'" "k = Suc k'"
      by auto
    from Cons.IH [OF k'(1)] k'(2) show ?thesis by (simp add: occurs_at_def)
  qed
qed

lemma find_first_least: "find_first needle hay = Some k \<Longrightarrow> k' < k \<Longrightarrow> \<not> occurs_at hay needle k'"
proof (induction hay arbitrary: k k')
  case Nil
  then show ?case by (simp split: if_splits)
next
  case (Cons h hs)
  show ?case
  proof (cases "prefix needle (h # hs)")
    case True
    with Cons.prems show ?thesis by simp
  next
    case False
    with Cons.prems obtain j where j: "find_first needle hs = Some j" "k = Suc j"
      by auto
    show ?thesis
    proof (cases k')
      case 0
      with False show ?thesis by (simp add: occurs_at_def prefix_iff_take)
    next
      case (Suc m)
      with Cons.prems j have "m < j" by simp
      from Cons.IH [OF j(1) this] Suc show ?thesis by (simp add: occurs_at_def)
    qed
  qed
qed

lemma find_first_None: "find_first needle hay = None \<Longrightarrow> \<not> occurs_at hay needle k"
proof (induction hay arbitrary: k)
  case Nil
  then show ?case by (auto simp: occurs_at_def split: if_splits)
next
  case (Cons h hs)
  then have np: "\<not> prefix needle (h # hs)" and n: "find_first needle hs = None"
    by (auto split: if_splits)
  show ?case
  proof (cases k)
    case 0
    with np show ?thesis by (simp add: occurs_at_def prefix_iff_take)
  next
    case (Suc m)
    with Cons.IH [OF n, of m] show ?thesis by (simp add: occurs_at_def)
  qed
qed

lemma str_find_occurs: "str_find hay needle i = Some j \<Longrightarrow> i \<le> j \<and> occurs_at hay needle j"
  by (auto simp: str_find_def occurs_at_def add.commute split: if_splits dest!: find_first_occurs)

lemma positions_from_acc:
  "positions_from hay needle i acc = acc @ positions_from hay needle i []"
proof (induction "Suc (length hay) - i" arbitrary: i acc rule: less_induct)
  case less
  show ?case
  proof (cases "str_find hay needle i")
    case None
    then show ?thesis by (simp add: positions_from.simps)
  next
    case (Some j)
    let ?i' = "j + max 1 (length needle)"
    from Some have "i \<le> j" "j \<le> length hay"
      using str_find_bounds [of hay needle i j] by auto
    then have m: "Suc (length hay) - ?i' < Suc (length hay) - i" by auto
    have "positions_from hay needle i acc
            = positions_from hay needle ?i' (acc @ [int (j + length needle div 2)])"
      using Some by (simp add: positions_from.simps [of hay needle i])
    also have "\<dots> = (acc @ [int (j + length needle div 2)]) @ positions_from hay needle ?i' []"
      by (rule less [OF m])
    also have "\<dots> = acc @ positions_from hay needle ?i' [int (j + length needle div 2)]"
      using less [OF m, of "[int (j + length needle div 2)]"] by simp
    also have "positions_from hay needle ?i' [int (j + length needle div 2)]
                 = positions_from hay needle i []"
      using Some by (simp add: positions_from.simps [of hay needle i])
    finally show ?thesis .
  qed
qed

lemma positions_from_unfold:
  "positions_from hay needle i [] =
     (case str_find hay needle i of
        None \<Rightarrow> []
      | Some j \<Rightarrow> int (j + length needle div 2)
                    # positions_from hay needle (j + max 1 (length needle)) [])"
proof (cases "str_find hay needle i")
  case None
  then show ?thesis by (simp add: positions_from.simps)
next
  case (Some j)
  then show ?thesis
    using positions_from_acc [of hay needle "j + max 1 (length needle)" "[int (j + length needle div 2)]"]
    by (simp add: positions_from.simps [of hay needle i])
qed

lemma positions_from_props:
  "sorted_wrt (\<lambda>p q. p + int (max 1 (length needle)) \<le> q) (positions_from hay needle i [])
   \<and> (\<forall>p \<in> set (positions_from hay needle i []).
         \<exists>k. i \<le> k \<and> p = int (k + length needle div 2) \<and> occurs_at hay needle k)"
proof (induction "Suc (length hay) - i" arbitrary: i rule: less_induct)
  case less
  show ?case
  proof (cases "str_find hay needle i")
    case None
    then show ?thesis by (simp add: positions_from_unfold)
  next
    case (Some j)
    let ?i' = "j + max 1 (length needle)"
    from Some have ij: "i \<le> j" "j \<le> length hay" and occ: "occurs_at hay needle j"
      using str_find_bounds [of hay needle i j] str_find_occurs [of hay needle i j] by auto
    then have m: "Suc (length hay) - ?i' < Suc (length hay) - i" by auto
    note IH = less [OF m]
    have eq: "positions_from hay needle i [] =
                int (j + length needle div 2) # positions_from hay needle ?i' []"
      using Some by (simp add: positions_from_unfold [of hay needle i])
    have gap: "int (j + length needle div 2) + int (max 1 (length needle)) \<le> q"
      if "q \<in> set (positions_from hay needle ?i' [])" for q
    proof -
      from IH that obtain k where "?i' \<le> k" "q = int (k + length needle div 2)" by blast
      then show ?thesis by simp
    qed
    have occs: "\<exists>k. i \<le> k \<and> p = int (k + length needle div 2) \<and> occurs_at hay needle k"
      if "p \<in> set (positions_from hay needle i [])" for p
    proof (cases "p = int (j + length needle div 2)")
      case True
      with ij occ show ?thesis by blast
    next
      case False
      with that eq have "p \<in> set (positions_from hay needle ?i' [])" by simp
      with IH obtain k where "?i' \<le> k" "p = int (k + length needle div 2)" "occurs_at hay needle k"
        by blast
      with ij show ?thesis by (intro exI [of _ k]) simp
    qed
    from IH gap occs show ?thesis by (simp add: eq)
  qed
qed

text \<open>
  C10. The occurrence scan collects non-overlapping occurrences only. After a match at
  index \<open>j\<close> the scan resumes at \<open>j + max 1 (length needle)\<close>; consecutive midpoints
  are at least \<open>max 1 (length needle)\<close> apart; every midpoint belongs to an occurrence
  of the needle; and the needle \<open>aa\<close> in \<open>aaaa\<close> has the two midpoints 1 and 3
  (the overlapping occurrence at index 1 is skipped).
\<close>

theorem positions_non_overlapping:
  "positions_from hay needle i [] =
     (case str_find hay needle i of
        None \<Rightarrow> []
      | Some j \<Rightarrow> int (j + length needle div 2)
                    # positions_from hay needle (j + max 1 (length needle)) [])
   \<and> sorted_wrt (\<lambda>p q. p + int (max 1 (length needle)) \<le> q) (positions hay needle)
   \<and> (\<forall>p \<in> set (positions hay needle).
          \<exists>k. p = int (k + length needle div 2) \<and> occurs_at hay needle k)
   \<and> positions (ustr ''aaaa'') (ustr ''aa'') = [1, 3]"
proof -
  have ex: "positions (ustr ''aaaa'') (ustr ''aa'') = [1, 3]"
    by (simp add: positions_def positions_from_unfold str_find_def ustr_def)
  from positions_from_props [of needle hay 0] positions_from_unfold [of hay needle i] ex
  show ?thesis unfolding positions_def by blast
qed

theorem positions_non_overlapping_witness:
  "1 \<in> set (positions (ustr ''aaaa'') (ustr ''aa''))
   \<and> (\<exists>k. (1::int) = int (k + length (ustr ''aa'') div 2) \<and> occurs_at (ustr ''aaaa'') (ustr ''aa'') k)
   \<and> sorted_wrt (\<lambda>p q. p + 2 \<le> q) (positions (ustr ''aaaa'') (ustr ''aa''))"
proof -
  have ex: "positions (ustr ''aaaa'') (ustr ''aa'') = [1, 3]"
    using positions_non_overlapping [of "ustr ''aaaa''" "ustr ''aa''" 0] by simp
  have "\<forall>p \<in> set (positions (ustr ''aaaa'') (ustr ''aa'')).
          \<exists>k. p = int (k + length (ustr ''aa'') div 2) \<and> occurs_at (ustr ''aaaa'') (ustr ''aa'') k"
    using positions_non_overlapping [of "ustr ''aaaa''" "ustr ''aa''" 0] by simp
  with ex show ?thesis by simp
qed

section \<open>Properties of the lexicon\<close>

text \<open>
  C9. The two keyword lists share no element: no keyword of \<open>FOOD_KW\<close> is in
  \<open>SERVICE_KW\<close>.
\<close>

theorem keyword_sets_disjoint: "set FOOD_KW \<inter> set SERVICE_KW = {}"
  by (simp add: FOOD_KW_def SERVICE_KW_def ustr_def)

section \<open>Properties of the sentence scorer\<close>

lemma str_in_iff_sublist: "str_in needle hay \<longleftrightarrow> sublist needle hay"
proof
  assume "str_in needle hay"
  then obtain k where "find_first needle hay = Some k"
    by (auto simp: str_in_def)
  then have "occurs_at hay needle k" by (rule find_first_occurs)
  then have "hay = take k hay @ needle @ drop (length needle) (drop k hay)"
    by (metis append_take_drop_id occurs_at_def)
  then show "sublist needle hay" unfolding sublist_def by blast
next
  assume "sublist needle hay"
  then obtain ps ss where "hay = ps @ needle @ ss" by (auto simp: sublist_def)
  then have "occurs_at hay needle (length ps)" by (simp add: occurs_at_def)
  then show "str_in needle hay"
    using find_first_None [of needle hay "length ps"] by (auto simp: str_in_def)
qed

lemma positions_nonempty_str_in: "positions s t \<noteq> [] \<Longrightarrow> str_in t s"
  by (auto simp: positions_def positions_from_unfold str_find_def str_in_def split: option.splits)

lemma for_each_fold:
  "(\<And>x st. x \<in> set xs \<Longrightarrow> body x st = Inr (g x st)) \<Longrightarrow> for_each body xs st = Inr (fold g xs st)"
  by (induction xs arbitrary: st) auto

lemma fold_concat_eq: "fold f (concat xss) st = fold (\<lambda>xs. fold f xs) xss st"
  by (induction xss arbitrary: st) auto

lemma py_min_nonempty:
  "target_pos \<noteq> [] \<Longrightarrow> py_min (map (\<lambda>tpos. \<bar>apos - tpos\<bar>) target_pos) = Inr (nearest_distance target_pos apos)"
  by (simp add: py_min_def nearest_distance_def min_list_Min)

lemma scan_level_fold:
  assumes "target_pos \<noteq> []" "map_of idx desired = Some adjs"
  shows "scan_level idx s target_pos desired st =
           Inr (fold consider_pair (concat (map (\<lambda>adj. map (\<lambda>apos. (nearest_distance target_pos apos, desired))
                                    (positions s adj)) adjs)) st)"
proof -
  have occ: "for_each (scan_occurrence target_pos desired) ps st' =
               Inr (fold consider_pair (map (\<lambda>apos. (nearest_distance target_pos apos, desired)) ps) st')"
    for ps st'
    using assms(1)
    by (simp add: fold_map comp_def consider_pair_def for_each_fold [where g = "\<lambda>apos. consider_cand desired (nearest_distance target_pos apos)"]
         scan_occurrence_def py_min_nonempty)
  have "for_each (\<lambda>adj. for_each (scan_occurrence target_pos desired) (positions s adj)) adjs st
         = Inr (fold (\<lambda>adj. fold consider_pair (map (\<lambda>apos. (nearest_distance target_pos apos, desired)) (positions s adj))) adjs st)"
    by (rule for_each_fold) (simp add: occ)
  then show ?thesis
    using assms(2) by (simp add: scan_level_def fold_concat_eq fold_map comp_def)
qed

lemma fold_consider_best:
  "fold consider_pair cs (None, None) = st \<Longrightarrow>
     (cs = [] \<and> st = (None, None))
     \<or> (\<exists>d l. st = (Some (d, - l), Some l) \<and> best_candidate (set cs) (d, l))"
proof (induction cs arbitrary: st rule: rev_induct)
  case Nil
  then show ?case by simp
next
  case (snoc c cs)
  obtain d' l' where c: "c = (d', l')" by (cases c)
  let ?st0 = "fold consider_pair cs (None, None)"
  from snoc.prems have st: "st = consider_pair c ?st0" by simp
  from snoc.IH [of ?st0] consider
    (empty) "cs = []" "?st0 = (None, None)"
    | (some) d l where "?st0 = (Some (d, - l), Some l)" "best_candidate (set cs) (d, l)"
    by auto
  then show ?case
  proof cases
    case empty
    then show ?thesis
      by (simp add: st c consider_pair_def consider_cand_def best_candidate_def)
  next
    case some
    show ?thesis
    proof (cases "tuple_less (d', - l') (d, - l)")
      case True
      with some have "st = (Some (d', - l'), Some l')"
        by (simp add: st c consider_pair_def consider_cand_def)
      moreover from True some(2) have "best_candidate (set (cs @ [c])) (d', l')"
        by (fastforce simp: best_candidate_def tuple_less_def c)
      ultimately show ?thesis by blast
    next
      case False
      with some have "st = (Some (d, - l), Some l)"
        by (simp add: st c consider_pair_def consider_cand_def)
      moreover from False some(2) have "best_candidate (set (cs @ [c])) (d, l)"
        by (fastforce simp: best_candidate_def tuple_less_def c)
      ultimately show ?thesis by blast
    qed
  qed
qed

lemma map_of_fold_update:
  "distinct (map fst scale) \<Longrightarrow>
   map_of (fold (\<lambda>(k, v) idx. AList.update k (f v) idx) scale acc) k =
     (case map_of scale k of Some v \<Rightarrow> Some (f v) | None \<Rightarrow> map_of acc k)"
proof (induction scale arbitrary: acc)
  case Nil
  then show ?case by simp
next
  case (Cons x xs)
  obtain k0 v0 where x: "x = (k0, v0)" by (cases x)
  from Cons.prems x have "map_of xs k0 = None"
    by (simp add: map_of_eq_None_iff)
  with Cons x show ?case
    by (auto simp: update_conv' split: option.splits)
qed

lemma map_of_build_adj_index:
  "distinct (map fst scale) \<Longrightarrow>
   map_of (build_adj_index L scale) score =
     map_option (\<lambda>adjs. uniq_list (concat (map (expand_adj_variants L) adjs))) (map_of scale score)"
  unfolding build_adj_index_def
  by (simp add: map_of_fold_update [where f = "\<lambda>adjs. uniq_list (concat (map (expand_adj_variants L) adjs))"]
        split: option.splits)

lemma ADJ_SCALE_keys: "map fst ADJ_SCALE = [1, 2, 3, 4, 5]"
  by (simp add: ADJ_SCALE_def)

lemma ADJ_IDX_defined:
  assumes "level \<in> set [5, 4, 3, 2, 1]"
  shows "\<exists>adjs. map_of (ADJ_IDX L) level = Some adjs"
proof -
  from assms have "\<exists>adjs. map_of ADJ_SCALE level = Some adjs"
    by (auto simp: ADJ_SCALE_def)
  then show ?thesis
    by (auto simp: ADJ_IDX_def map_of_build_adj_index ADJ_SCALE_keys)
qed

lemma scan_levels_fold:
  assumes "target_pos \<noteq> []"
  shows "for_each (scan_level (ADJ_IDX L) s target_pos) [5, 4, 3, 2, 1] st =
           Inr (fold consider_pair (loop_candidates (ADJ_IDX L) s target_pos) st)"
proof -
  have "for_each (scan_level (ADJ_IDX L) s target_pos) [5, 4, 3, 2, 1] st =
          Inr (fold (\<lambda>level. fold consider_pair (level_candidates (ADJ_IDX L) s target_pos level)) [5, 4, 3, 2, 1] st)"
  proof (rule for_each_fold)
    fix level :: int and st' :: best_state
    assume "level \<in> set [5, 4, 3, 2, 1]"
    then obtain adjs where "map_of (ADJ_IDX L) level = Some adjs"
      using ADJ_IDX_defined by blast
    with assms show "scan_level (ADJ_IDX L) s target_pos level st' =
                       Inr (fold consider_pair (level_candidates (ADJ_IDX L) s target_pos level) st')"
      by (simp add: scan_level_fold level_candidates_def)
  qed
  then show ?thesis by (simp only: loop_candidates_def fold_concat_eq fold_map comp_def)
qed

lemma score_for_sentence_eq:
  "score_for_sentence L sentence target_terms =
     (if concat (map (positions (normalize_text L sentence)) target_terms) = [] then Inr 3
      else Inr (case snd (fold consider_pair (loop_candidates (ADJ_IDX L) (normalize_text L sentence)
                                      (concat (map (positions (normalize_text L sentence)) target_terms)))
                            (None, None)) of
                  Some best_score \<Rightarrow> best_score | None \<Rightarrow> 3))"
proof -
  let ?s = "normalize_text L sentence"
  let ?tp = "concat (map (positions ?s) target_terms)"
  have empty: "?tp = []" if "\<not> list_ex (\<lambda>t. str_in t ?s) target_terms"
    using that positions_nonempty_str_in [of ?s] by (auto simp: list_ex_iff)
  show ?thesis
  proof (cases "?tp = []")
    case True
    have "score_for_sentence L sentence target_terms = Inr 3"
      unfolding score_for_sentence_def Let_def by (simp only: True if_True if_cancel simp_thms)
    with True show ?thesis by (simp only: if_True simp_thms)
  next
    case False
    with empty have ex: "list_ex (\<lambda>t. str_in t ?s) target_terms" by blast
    have "score_for_sentence L sentence target_terms =
            (case for_each (scan_level (ADJ_IDX L) ?s ?tp) [5, 4, 3, 2, 1] (None, None) of
               Inl e \<Rightarrow> Inl e
             | Inr st \<Rightarrow> Inr (case snd st of Some best_score \<Rightarrow> best_score | None \<Rightarrow> 3))"
      unfolding score_for_sentence_def Let_def using ex False by (simp only: not_True_eq_False if_False)
    also have "\<dots> = Inr (case snd (fold consider_pair (loop_candidates (ADJ_IDX L) ?s ?tp) (None, None)) of
                          Some best_score \<Rightarrow> best_score | None \<Rightarrow> 3)"
      by (simp only: scan_levels_fold [OF False] sum.case)
    finally show ?thesis using False by (simp only: if_False)
  qed
qed

lemma loop_candidates_set:
  "set (loop_candidates idx s target_pos) = set (candidates idx s target_pos)"
  by (auto simp: candidates_def loop_candidates_def)

lemma level_candidates_snd: "c \<in> set (level_candidates idx s target_pos level) \<Longrightarrow> snd c = level"
  by (auto simp: level_candidates_def split: option.splits)

lemma candidates_level_range: "c \<in> set (candidates idx s target_pos) \<Longrightarrow> 1 \<le> snd c \<and> snd c \<le> 5"
  by (auto simp: candidates_def dest!: level_candidates_snd)

lemma score_for_sentence_range:
  "\<exists>v. score_for_sentence L sentence target_terms = Inr v \<and> 1 \<le> v \<and> v \<le> 5"
proof -
  define s where "s = normalize_text L sentence"
  define tp where "tp = concat (map (positions s) target_terms)"
  define cs where "cs = loop_candidates (ADJ_IDX L) s tp"
  define st where "st = fold consider_pair cs (None, None)"
  have eq: "score_for_sentence L sentence target_terms =
              (if tp = [] then Inr 3
               else Inr (case snd st of Some best_score \<Rightarrow> best_score | None \<Rightarrow> 3))"
    unfolding st_def cs_def tp_def s_def by (rule score_for_sentence_eq)
  from fold_consider_best [of cs st]
  have "(cs = [] \<and> st = (None, None))
        \<or> (\<exists>d l. st = (Some (d, - l), Some l) \<and> best_candidate (set cs) (d, l))"
    by (simp add: st_def)
  then show ?thesis
  proof (elim disjE conjE exE)
    assume "st = (None, None)"
    then show ?thesis by (simp add: eq)
  next
    fix d l
    assume st: "st = (Some (d, - l), Some l)" and best: "best_candidate (set cs) (d, l)"
    from best have "(d, l) \<in> set (candidates (ADJ_IDX L) s tp)"
      by (simp add: best_candidate_def cs_def loop_candidates_set)
    from candidates_level_range [OF this] have "1 \<le> l \<and> l \<le> 5" by simp
    with st show ?thesis by (simp add: eq)
  qed
qed

section \<open>Evaluating the lexicon and the Latin-1 tables\<close>

lemma find_Some_member: "find P xs = Some x \<Longrightarrow> x \<in> set xs \<and> P x"
  by (induction xs) (auto split: if_splits)

lemma combining_class_rows:
  "\<forall>(lo, hi, v) \<in> set combining_class_table. (768 \<le> lo \<and> hi \<le> 879) \<or> lo = 5909 \<and> hi = 5909 \<or> lo = 12334 \<and> hi = 12335"
  by (simp add: combining_class_table_def)

lemma combining_class_nonzero:
  assumes "combining_class c \<noteq> 0"
  shows "(768 \<le> c \<and> c \<le> 879) \<or> c = 5909 \<or> c = 12334 \<or> c = 12335"
proof (cases "find (\<lambda>(lo, hi, v). lo \<le> c \<and> c \<le> hi) combining_class_table")
  case None
  with assms show ?thesis by (simp add: combining_class_def)
next
  case (Some r)
  then have "r \<in> set combining_class_table" "case r of (lo, hi, v) \<Rightarrow> lo \<le> c \<and> c \<le> hi"
    by (auto dest: find_Some_member)
  with combining_class_rows show ?thesis by fastforce
qed

lemma latin1_decomp_plain: "c < 192 \<Longrightarrow> latin1_decomp c = [c]"
proof -
  assume c: "c < 192"
  have "\<forall>k \<in> fst ` set latin1_decomp_table. 192 \<le> k"
    by (simp add: latin1_decomp_table_def)
  with c have "c \<notin> fst ` set latin1_decomp_table" by auto
  then have "map_of latin1_decomp_table c = None" by (simp add: map_of_eq_None_iff)
  then show ?thesis by (simp add: latin1_decomp_def)
qed

lemma fold_insert_starters:
  "\<forall>c \<in> set s. combining_class c = 0 \<Longrightarrow> fold insert_mark s acc = rev s @ acc"
proof (induction s arbitrary: acc)
  case Nil
  then show ?case by simp
next
  case (Cons c s)
  then have "insert_mark c acc = c # acc" by (cases acc) simp_all
  with Cons show ?case by simp
qed

lemma canonical_order_starters:
  "\<forall>c \<in> set s. combining_class c = 0 \<Longrightarrow> canonical_order s = s"
  by (simp add: canonical_order_def fold_insert_starters)

lemma normalize_latin1_plain:
  assumes "\<forall>c \<in> set s. (97 \<le> c \<and> c \<le> 122) \<or> c = 32"
  shows "normalize_text latin1_lib s = s"
proof -
  have low: "map latin1_lower_char s = s"
    using assms by (intro map_idI) (auto simp: latin1_lower_char_def)
  have dec: "concat (map latin1_decomp s) = s"
    using assms by (induction s) (auto simp: latin1_decomp_plain)
  have "\<forall>c \<in> set s. combining_class c = 0"
    using assms combining_class_nonzero by fastforce
  then have ord: "canonical_order s = s" by (rule canonical_order_starters)
  have "filter (\<lambda>c. \<not> latin1_is_Mn c) s = s"
    using assms by (intro filter_True) (auto simp: latin1_is_Mn_def)
  with low dec ord show ?thesis by (simp add: normalize_text_def latin1_lib_def)
qed

lemma set_uniq_list: "set (uniq_list xs) = set xs"
proof -
  have "fst (fold uniq_step xs (seen, acc)) = seen \<union> set xs
        \<and> set (snd (fold uniq_step xs (seen, acc))) = set acc \<union> (set xs - seen)" for seen acc
    by (induction xs arbitrary: seen acc) (auto simp: uniq_step_def)
  from this [of "{}" "[]"] show ?thesis by (simp add: uniq_list_def)
qed

lemma finite_expand_variants_set: "finite (expand_variants_set a)"
  by (simp add: expand_variants_set_def Let_def)

lemma set_ADJ_IDX_bucket:
  assumes "\<forall>A. finite A \<longrightarrow> set (py_list_of_set L A) = A"
    and "map_of ADJ_SCALE level = Some adjs"
  shows "\<exists>bucket. map_of (ADJ_IDX L) level = Some bucket
           \<and> set bucket = (\<Union>a \<in> set adjs. expand_variants_set a)"
  using assms
  by (simp add: ADJ_IDX_def map_of_build_adj_index ADJ_SCALE_keys set_uniq_list
        expand_adj_variants_def finite_expand_variants_set)

lemma latin1_list_of_set: "\<forall>A. finite A \<longrightarrow> set (py_list_of_set latin1_lib A) = A"
  by (simp add: latin1_lib_def)

lemmas pos_eval = positions_def positions_from_unfold str_find_def ustr_def

lemma level_candidates_forms:
  assumes "\<forall>A. finite A \<longrightarrow> set (py_list_of_set L A) = A"
    and "map_of ADJ_SCALE level = Some adjs"
    and "(\<Union>a \<in> set adjs. expand_variants_set a) = set forms"
  shows "set (level_candidates (ADJ_IDX L) s tp level) =
           (\<lambda>apos. (nearest_distance tp apos, level)) ` set (concat (map (positions s) forms))"
proof -
  from set_ADJ_IDX_bucket [OF assms(1,2)] assms(3)
  obtain bucket where "map_of (ADJ_IDX L) level = Some bucket" and "set bucket = set forms"
    by auto
  then show ?thesis by (auto simp: level_candidates_def)
qed

section \<open>The scorer without a keyword\<close>

lemma no_keyword_iff:
  "(\<forall>t \<in> set ts. \<not> sublist t s) \<longleftrightarrow> concat (map (positions s) ts) = []"
proof -
  have "positions s t = [] \<longleftrightarrow> \<not> str_in t s" for t
    by (auto simp: positions_def positions_from_unfold str_find_def str_in_def split: option.splits)
  then show ?thesis by (auto simp: str_in_iff_sublist)
qed

text \<open>
  C7. If no target keyword occurs as a substring of the normalized sentence, the sentence
  scorer returns the neutral score 3, for every sentence, every keyword list and every
  behaviour of the library.
\<close>

theorem no_keyword_neutral:
  assumes "\<forall>t \<in> set target_terms. \<not> sublist t (normalize_text L sentence)"
  shows "score_for_sentence L sentence target_terms = Inr 3"
  using assms by (simp add: score_for_sentence_def Let_def list_ex_iff str_in_iff_sublist)

theorem no_keyword_neutral_witness:
  "concat (map (positions (normalize_text latin1_lib (ustr ''ambiente bom''))) FOOD_KW) = []
   \<and> score_for_sentence latin1_lib (ustr ''ambiente bom'') FOOD_KW = Inr 3"
proof -
  have n: "normalize_text latin1_lib (ustr ''ambiente bom'') = ustr ''ambiente bom''"
    by (rule normalize_latin1_plain) (simp add: ustr_def)
  have p: "concat (map (positions (ustr ''ambiente bom'')) FOOD_KW) = []"
    by (simp add: FOOD_KW_def pos_eval)
  then have h: "\<forall>t \<in> set FOOD_KW. \<not> sublist t (normalize_text latin1_lib (ustr ''ambiente bom''))"
    by (simp only: n no_keyword_iff)
  from no_keyword_neutral [OF h] p show ?thesis by (simp only: n simp_thms)
qed

section \<open>Properties of the dimension analyzer\<close>

lemma first_score_props:
  assumes "\<forall>x. first = Some x \<longrightarrow> 1 \<le> x \<and> x \<le> 5"
  shows "\<exists>first'. first_score L kw sent first = Inr first'
           \<and> (\<forall>x. first' = Some x \<longrightarrow> 1 \<le> x \<and> x \<le> 5)
           \<and> ((\<forall>k \<in> set kw. \<not> sublist k (normalize_text L sent)) \<longrightarrow> first' = first)"
proof (cases "first = None \<and> list_ex (\<lambda>k. str_in k (normalize_text L sent)) kw")
  case True
  from score_for_sentence_range [of L sent kw]
  obtain v where "score_for_sentence L sent kw = Inr v" "1 \<le> v" "v \<le> 5" by blast
  with True show ?thesis
    by (auto simp: first_score_def list_ex_iff str_in_iff_sublist)
next
  case False
  with assms show ?thesis by (auto simp: first_score_def)
qed

lemma analyze_loop_props:
  assumes "\<forall>x. fst st = Some x \<longrightarrow> 1 \<le> x \<and> x \<le> 5"
    and "\<forall>x. snd st = Some x \<longrightarrow> 1 \<le> x \<and> x \<le> 5"
  shows "\<exists>st'. analyze_loop L sents st = Inr st'
           \<and> (\<forall>x. fst st' = Some x \<longrightarrow> 1 \<le> x \<and> x \<le> 5)
           \<and> (\<forall>x. snd st' = Some x \<longrightarrow> 1 \<le> x \<and> x \<le> 5)
           \<and> ((\<forall>sent \<in> set sents. \<forall>k \<in> set FOOD_KW. \<not> sublist k (normalize_text L sent))
                \<longrightarrow> fst st' = fst st)
           \<and> ((\<forall>sent \<in> set sents. \<forall>k \<in> set SERVICE_KW. \<not> sublist k (normalize_text L sent))
                \<longrightarrow> snd st' = snd st)"
  using assms
proof (induction sents arbitrary: st)
  case Nil
  then show ?case by simp
next
  case (Cons sent rest)
  from first_score_props [OF Cons.prems(1), of L FOOD_KW sent]
  obtain ff where ff: "first_score L FOOD_KW sent (fst st) = Inr ff"
    "\<forall>x. ff = Some x \<longrightarrow> 1 \<le> x \<and> x \<le> 5"
    "(\<forall>k \<in> set FOOD_KW. \<not> sublist k (normalize_text L sent)) \<longrightarrow> ff = fst st"
    by blast
  from first_score_props [OF Cons.prems(2), of L SERVICE_KW sent]
  obtain fs where fs: "first_score L SERVICE_KW sent (snd st) = Inr fs"
    "\<forall>x. fs = Some x \<longrightarrow> 1 \<le> x \<and> x \<le> 5"
    "(\<forall>k \<in> set SERVICE_KW. \<not> sublist k (normalize_text L sent)) \<longrightarrow> fs = snd st"
    by blast
  show ?case
  proof (cases "ff \<noteq> None \<and> fs \<noteq> None")
    case True
    with ff fs show ?thesis by simp
  next
    case False
    from Cons.IH [of "(ff, fs)"] ff(2) fs(2)
    have "\<exists>st'. analyze_loop L rest (ff, fs) = Inr st'
           \<and> (\<forall>x. fst st' = Some x \<longrightarrow> 1 \<le> x \<and> x \<le> 5)
           \<and> (\<forall>x. snd st' = Some x \<longrightarrow> 1 \<le> x \<and> x \<le> 5)
           \<and> ((\<forall>sent \<in> set rest. \<forall>k \<in> set FOOD_KW. \<not> sublist k (normalize_text L sent))
                \<longrightarrow> fst st' = ff)
           \<and> ((\<forall>sent \<in> set rest. \<forall>k \<in> set SERVICE_KW. \<not> sublist k (normalize_text L sent))
                \<longrightarrow> snd st' = fs)"
      by simp
    then obtain st' where st': "analyze_loop L rest (ff, fs) = Inr st'"
      "\<forall>x. fst st' = Some x \<longrightarrow> 1 \<le> x \<and> x \<le> 5"
      "\<forall>x. snd st' = Some x \<longrightarrow> 1 \<le> x \<and> x \<le> 5"
      "(\<forall>sent \<in> set rest. \<forall>k \<in> set FOOD_KW. \<not> sublist k (normalize_text L sent)) \<longrightarrow> fst st' = ff"
      "(\<forall>sent \<in> set rest. \<forall>k \<in> set SERVICE_KW. \<not> sublist k (normalize_text L sent)) \<longrightarrow> snd st' = fs"
      by blast
    have "analyze_loop L (sent # rest) st = Inr st'"
      using ff(1) fs(1) False st'(1) by auto
    with st' ff(3) fs(3) show ?thesis by simp
  qed
qed

text \<open>
  C4. For every list of sentences \<open>analyze_reviews\<close> returns (it raises nothing), with
  exactly one food score and one service score, each between 1 and 5; a dimension none
  of whose keywords occurs in any normalized sentence gets the neutral score 3.
\<close>

theorem analyze_reviews_one_pair:
  "\<exists>f s. analyze_reviews L review_sentences
            = Inr \<lparr>food_scores = [f], customer_service_scores = [s]\<rparr>
     \<and> 1 \<le> f \<and> f \<le> 5 \<and> 1 \<le> s \<and> s \<le> 5
     \<and> ((\<forall>sent \<in> set review_sentences. \<forall>k \<in> set FOOD_KW. \<not> sublist k (normalize_text L sent))
          \<longrightarrow> f = 3)
     \<and> ((\<forall>sent \<in> set review_sentences. \<forall>k \<in> set SERVICE_KW. \<not> sublist k (normalize_text L sent))
          \<longrightarrow> s = 3)"
proof -
  from analyze_loop_props [of "(None, None)" L review_sentences]
  have "\<exists>st'. analyze_loop L review_sentences (None, None) = Inr st'
           \<and> (\<forall>x. fst st' = Some x \<longrightarrow> 1 \<le> x \<and> x \<le> 5)
           \<and> (\<forall>x. snd st' = Some x \<longrightarrow> 1 \<le> x \<and> x \<le> 5)
           \<and> ((\<forall>sent \<in> set review_sentences. \<forall>k \<in> set FOOD_KW. \<not> sublist k (normalize_text L sent))
                \<longrightarrow> fst st' = None)
           \<and> ((\<forall>sent \<in> set review_sentences. \<forall>k \<in> set SERVICE_KW. \<not> sublist k (normalize_text L sent))
                \<longrightarrow> snd st' = None)"
    by simp
  then obtain st' where st': "analyze_loop L review_sentences (None, None) = Inr st'"
    "\<forall>x. fst st' = Some x \<longrightarrow> 1 \<le> x \<and> x \<le> 5"
    "\<forall>x. snd st' = Some x \<longrightarrow> 1 \<le> x \<and> x \<le> 5"
    "(\<forall>sent \<in> set review_sentences. \<forall>k \<in> set FOOD_KW. \<not> sublist k (normalize_text L sent))
       \<longrightarrow> fst st' = None"
    "(\<forall>sent \<in> set review_sentences. \<forall>k \<in> set SERVICE_KW. \<not> sublist k (normalize_text L sent))
       \<longrightarrow> snd st' = None"
    by blast
  define f where "f = (case fst st' of None \<Rightarrow> 3 | Some v \<Rightarrow> v)"
  define s where "s = (case snd st' of None \<Rightarrow> 3 | Some v \<Rightarrow> v)"
  have "analyze_reviews L review_sentences = Inr \<lparr>food_scores = [f], customer_service_scores = [s]\<rparr>"
    by (simp add: analyze_reviews_def st'(1) f_def s_def)
  moreover have "1 \<le> f \<and> f \<le> 5" using st'(2) by (auto simp: f_def split: option.splits)
  moreover have "1 \<le> s \<and> s \<le> 5" using st'(3) by (auto simp: s_def split: option.splits)
  moreover have "(\<forall>sent \<in> set review_sentences. \<forall>k \<in> set FOOD_KW. \<not> sublist k (normalize_text L sent)) \<longrightarrow> f = 3"
    using st'(4) by (simp add: f_def)
  moreover have "(\<forall>sent \<in> set review_sentences. \<forall>k \<in> set SERVICE_KW. \<not> sublist k (normalize_text L sent)) \<longrightarrow> s = 3"
    using st'(5) by (simp add: s_def)
  ultimately show ?thesis by blast
qed

theorem analyze_reviews_one_pair_witness:
  "concat (map (positions (normalize_text latin1_lib (ustr ''comida boa''))) SERVICE_KW) = []
   \<and> (\<exists>f. analyze_reviews latin1_lib [ustr ''comida boa'']
             = Inr \<lparr>food_scores = [f], customer_service_scores = [3]\<rparr> \<and> 1 \<le> f \<and> f \<le> 5)"
proof -
  have n: "normalize_text latin1_lib (ustr ''comida boa'') = ustr ''comida boa''"
    by (rule normalize_latin1_plain) (simp add: ustr_def)
  have p: "concat (map (positions (ustr ''comida boa'')) SERVICE_KW) = []"
    by (simp add: SERVICE_KW_def pos_eval)
  then have "\<forall>k \<in> set SERVICE_KW. \<not> sublist k (normalize_text latin1_lib (ustr ''comida boa''))"
    by (simp only: n no_keyword_iff)
  then have h: "\<forall>sent \<in> set [ustr ''comida boa'']. \<forall>k \<in> set SERVICE_KW.
                  \<not> sublist k (normalize_text latin1_lib sent)"
    by simp
  from analyze_reviews_one_pair [of latin1_lib "[ustr ''comida boa'']"] h
  have "\<exists>f. analyze_reviews latin1_lib [ustr ''comida boa'']
             = Inr \<lparr>food_scores = [f], customer_service_scores = [3]\<rparr> \<and> 1 \<le> f \<and> f \<le> 5"
    by blast
  with p show ?thesis by (simp only: n simp_thms)
qed

section \<open>The lexicon evaluated\<close>

lemma scale1: "map_of ADJ_SCALE 1 = Some [ustr ''horrivel'', ustr ''nojento'', ustr ''terrivel'']"
  by (simp add: ADJ_SCALE_def)

lemma scale2: "map_of ADJ_SCALE 2 = Some [ustr ''ruim'', ustr ''desagradavel'', ustr ''ofensivo'']"
  by (simp add: ADJ_SCALE_def)

lemma scale3: "map_of ADJ_SCALE 3 = Some [ustr ''mediano'', ustr ''sem graca'', ustr ''irrelevante'']"
  by (simp add: ADJ_SCALE_def)

lemma scale4: "map_of ADJ_SCALE 4 = Some [ustr ''bom'', ustr ''agradavel'', ustr ''satisfatorio'']"
  by (simp add: ADJ_SCALE_def)

lemma scale5: "map_of ADJ_SCALE 5 = Some [ustr ''incrivel'', ustr ''impressionante'', ustr ''surpreendente'']"
  by (simp add: ADJ_SCALE_def)

lemmas expand_eval = expand_variants_set_def Let_def ustr_def suffix_to_prefix drop_last_def insert_commute

lemma forms1:
  "(\<Union>a \<in> set [ustr ''horrivel'', ustr ''nojento'', ustr ''terrivel'']. expand_variants_set a)
   = set [ustr ''horrivel'', ustr ''horriveis'', ustr ''nojento'', ustr ''nojenta'',
          ustr ''nojentos'', ustr ''nojentas'', ustr ''terrivel'', ustr ''terriveis'']"
  by (simp add: expand_eval)

lemma forms2:
  "(\<Union>a \<in> set [ustr ''ruim'', ustr ''desagradavel'', ustr ''ofensivo'']. expand_variants_set a)
   = set [ustr ''ruim'', ustr ''ruins'', ustr ''desagradavel'', ustr ''desagradaveis'',
          ustr ''ofensivo'', ustr ''ofensiva'', ustr ''ofensivos'', ustr ''ofensivas'']"
  by (simp add: expand_eval)

lemma forms3:
  "(\<Union>a \<in> set [ustr ''mediano'', ustr ''sem graca'', ustr ''irrelevante'']. expand_variants_set a)
   = set [ustr ''mediano'', ustr ''mediana'', ustr ''medianos'', ustr ''medianas'',
          ustr ''sem graca'', ustr ''irrelevante'', ustr ''irrelevantes'']"
  by (simp add: expand_eval)

lemma forms4:
  "(\<Union>a \<in> set [ustr ''bom'', ustr ''agradavel'', ustr ''satisfatorio'']. expand_variants_set a)
   = set [ustr ''bom'', ustr ''boa'', ustr ''bons'', ustr ''boas'', ustr ''agradavel'',
          ustr ''agradaveis'', ustr ''satisfatorio'', ustr ''satisfatoria'',
          ustr ''satisfatorios'', ustr ''satisfatorias'']"
  by (simp add: expand_eval)

lemma forms5:
  "(\<Union>a \<in> set [ustr ''incrivel'', ustr ''impressionante'', ustr ''surpreendente'']. expand_variants_set a)
   = set [ustr ''incrivel'', ustr ''incriveis'', ustr ''impressionante'',
          ustr ''impressionantes'', ustr ''surpreendente'', ustr ''surpreendentes'']"
  by (simp add: expand_eval)

lemmas latin1_level1 = level_candidates_forms [OF latin1_list_of_set scale1 forms1]
lemmas latin1_level2 = level_candidates_forms [OF latin1_list_of_set scale2 forms2]
lemmas latin1_level3 = level_candidates_forms [OF latin1_list_of_set scale3 forms3]
lemmas latin1_level4 = level_candidates_forms [OF latin1_list_of_set scale4 forms4]
lemmas latin1_level5 = level_candidates_forms [OF latin1_list_of_set scale5 forms5]

lemma set_candidates:
  "set (candidates idx s tp) =
     set (level_candidates idx s tp 1) \<union> set (level_candidates idx s tp 2)
     \<union> set (level_candidates idx s tp 3) \<union> set (level_candidates idx s tp 4)
     \<union> set (level_candidates idx s tp 5)"
  by (auto simp: candidates_def)

section \<open>The tie-break of the scorer\<close>

text \<open>
  C2. When some keyword occurs, the score is decided by the whole candidate space (all five
  levels, all expanded forms, all their occurrences), not by the order of the scan: the
  returned level belongs to a candidate of least distance and is the highest level among
  the candidates at that distance. In particular, when forms of two levels are both at
  the least distance, the returned level is at least the higher of the two. Without any
  candidate the score is 3.
\<close>

theorem nearest_adjective_highest_level:
  assumes "target_pos = concat (map (positions (normalize_text L sentence)) target_terms)"
    and "target_pos \<noteq> []"
    and "C = set (candidates (ADJ_IDX L) (normalize_text L sentence) target_pos)"
  shows "(C = {} \<longrightarrow> score_for_sentence L sentence target_terms = Inr 3)
       \<and> (C \<noteq> {} \<longrightarrow> (\<exists>d level. score_for_sentence L sentence target_terms = Inr level
                                  \<and> best_candidate C (d, level)))
       \<and> (\<forall>d l1 l2. (d, l1) \<in> C \<and> (d, l2) \<in> C \<and> (\<forall>c \<in> C. d \<le> fst c)
             \<longrightarrow> (\<exists>level. score_for_sentence L sentence target_terms = Inr level
                           \<and> l1 \<le> level \<and> l2 \<le> level))"
proof -
  define cs where "cs = loop_candidates (ADJ_IDX L) (normalize_text L sentence) target_pos"
  define st where "st = fold consider_pair cs (None, None)"
  have C: "C = set cs"
    by (simp add: assms(3) cs_def loop_candidates_set)
  have eq: "score_for_sentence L sentence target_terms =
              Inr (case snd st of Some best_score \<Rightarrow> best_score | None \<Rightarrow> 3)"
    using assms(2) unfolding st_def cs_def assms(1) by (simp only: score_for_sentence_eq if_False)
  from fold_consider_best [of cs st]
  have "(cs = [] \<and> st = (None, None))
        \<or> (\<exists>d l. st = (Some (d, - l), Some l) \<and> best_candidate (set cs) (d, l))"
    by (simp add: st_def)
  then show ?thesis
  proof (elim disjE conjE exE)
    assume "cs = []" "st = (None, None)"
    then show ?thesis by (simp add: eq C)
  next
    fix d l
    assume st: "st = (Some (d, - l), Some l)" and best: "best_candidate (set cs) (d, l)"
    have sc: "score_for_sentence L sentence target_terms = Inr l"
      by (simp add: eq st)
    from best have ne: "C \<noteq> {}" by (auto simp: C best_candidate_def)
    have tie: "l1 \<le> l \<and> l2 \<le> l"
      if "(d', l1) \<in> C" "(d', l2) \<in> C" "\<forall>c \<in> C. d' \<le> fst c" for d' l1 l2
    proof -
      from best have "(d, l) \<in> C" by (simp add: C best_candidate_def)
      with that(3) have "d' \<le> d" by force
      moreover from best that(1) have "d \<le> d'" by (force simp: C best_candidate_def)
      ultimately have "d' = d" by simp
      with best that(1,2) show ?thesis by (force simp: C best_candidate_def)
    qed
    from sc ne best tie show ?thesis unfolding C by blast
  qed
qed

theorem nearest_adjective_highest_level_witness:
  "concat (map (positions (normalize_text latin1_lib (ustr ''mediano cafe incrivel''))) FOOD_KW) = [10]
   \<and> set (candidates (ADJ_IDX latin1_lib) (normalize_text latin1_lib (ustr ''mediano cafe incrivel'')) [10])
       = {(7, 3), (7, 5)}
   \<and> score_for_sentence latin1_lib (ustr ''mediano cafe incrivel'') FOOD_KW = Inr 5"
proof -
  let ?S = "ustr ''mediano cafe incrivel''"
  have n: "normalize_text latin1_lib ?S = ?S"
    by (rule normalize_latin1_plain) (simp add: ustr_def)
  have tp: "concat (map (positions ?S) FOOD_KW) = [10]"
    by (simp add: FOOD_KW_def pos_eval)
  have l1: "set (level_candidates (ADJ_IDX latin1_lib) ?S [10] 1) = {}"
    by (simp add: latin1_level1 nearest_distance_def pos_eval)
  have l2: "set (level_candidates (ADJ_IDX latin1_lib) ?S [10] 2) = {}"
    by (simp add: latin1_level2 nearest_distance_def pos_eval)
  have l3: "set (level_candidates (ADJ_IDX latin1_lib) ?S [10] 3) = {(7, 3)}"
    by (simp add: latin1_level3 nearest_distance_def pos_eval)
  have l4: "set (level_candidates (ADJ_IDX latin1_lib) ?S [10] 4) = {}"
    by (simp add: latin1_level4 nearest_distance_def pos_eval)
  have l5: "set (level_candidates (ADJ_IDX latin1_lib) ?S [10] 5) = {(7, 5)}"
    by (simp add: latin1_level5 nearest_distance_def pos_eval)
  have C: "set (candidates (ADJ_IDX latin1_lib) ?S [10]) = {(7, 3), (7, 5)}"
    by (simp only: set_candidates l1 l2 l3 l4 l5) auto
  have "\<exists>d level. score_for_sentence latin1_lib ?S FOOD_KW = Inr level
          \<and> best_candidate {(7, 3), (7, 5)} (d, level)"
    using nearest_adjective_highest_level [of "[10]" latin1_lib ?S FOOD_KW "{(7, 3), (7, 5)}"]
    by (simp add: n tp C)
  then have "score_for_sentence latin1_lib ?S FOOD_KW = Inr 5"
    by (auto simp: best_candidate_def)
  with tp C show ?thesis by (simp only: n simp_thms)
qed

section \<open>Adjective expansion\<close>

lemma original_in_expand_variants_set: "a \<in> expand_variants_set a"
  by (simp add: expand_variants_set_def Let_def)

text \<open>
  C8. Expansion is lossless. Provided the library enumerates every element of a finite
  set, the list returned by \<open>_expand_adj_variants\<close> contains the word itself; in the index
  built from a scale (a dictionary: distinct keys) every base adjective is in the list of
  its own level; and for \<open>ADJ_SCALE\<close>, whose base adjectives are their own normalized
  forms, the normalized form is in the list of its level in \<open>ADJ_IDX\<close>.
\<close>

theorem expansion_keeps_original:
  assumes "\<forall>A. finite A \<longrightarrow> set (py_list_of_set L A) = A"
    and "distinct (map fst scale)"
  shows "adj \<in> set (expand_adj_variants L adj)
       \<and> (\<forall>level adjs a. map_of scale level = Some adjs \<and> a \<in> set adjs \<longrightarrow>
             (\<exists>bucket. map_of (build_adj_index L scale) level = Some bucket \<and> a \<in> set bucket))
       \<and> (\<forall>level adjs a. map_of ADJ_SCALE level = Some adjs \<and> a \<in> set adjs \<longrightarrow>
             normalize_text latin1_lib a = a
             \<and> (\<exists>bucket. map_of (ADJ_IDX L) level = Some bucket \<and> a \<in> set bucket))"
proof -
  have mem: "a \<in> set (expand_adj_variants L a)" for a
    using assms(1) by (simp add: expand_adj_variants_def finite_expand_variants_set
        original_in_expand_variants_set)
  have idx: "\<exists>bucket. map_of (build_adj_index L sc) level = Some bucket \<and> a \<in> set bucket"
    if "distinct (map fst sc)" "map_of sc level = Some adjs" "a \<in> set adjs" for sc level adjs a
    using that mem by (auto simp: map_of_build_adj_index set_uniq_list)
  have plain: "normalize_text latin1_lib a = a"
    if "map_of ADJ_SCALE level = Some adjs" "a \<in> set adjs" for level adjs a
  proof -
    from that have "a \<in> set (concat (map snd ADJ_SCALE))"
      by (auto dest!: map_of_SomeD intro!: bexI [of _ "(level, adjs)"])
    then have "\<forall>c \<in> set a. (97 \<le> c \<and> c \<le> 122) \<or> c = 32"
      by (auto simp: ADJ_SCALE_def ustr_def)
    then show ?thesis by (rule normalize_latin1_plain)
  qed
  have d: "distinct (map fst ADJ_SCALE)" by (simp add: ADJ_SCALE_keys)
  from mem idx [OF assms(2)] idx [OF d] plain show ?thesis
    unfolding ADJ_IDX_def by blast
qed

theorem expansion_keeps_original_witness:
  "distinct (map fst ADJ_SCALE)
   \<and> map_of ADJ_SCALE 4 = Some [ustr ''bom'', ustr ''agradavel'', ustr ''satisfatorio'']
   \<and> ustr ''bom'' \<in> set (expand_adj_variants latin1_lib (ustr ''bom''))
   \<and> (\<exists>bucket. map_of (ADJ_IDX latin1_lib) 4 = Some bucket \<and> ustr ''bom'' \<in> set bucket)"
proof -
  have d: "distinct (map fst ADJ_SCALE)" by (simp add: ADJ_SCALE_keys)
  have m: "ustr ''bom'' \<in> set [ustr ''bom'', ustr ''agradavel'', ustr ''satisfatorio'']" by simp
  from expansion_keeps_original [OF latin1_list_of_set d, of "ustr ''bom''"] scale4 m
  have "ustr ''bom'' \<in> set (expand_adj_variants latin1_lib (ustr ''bom''))"
    and "\<exists>bucket. map_of (ADJ_IDX latin1_lib) 4 = Some bucket \<and> ustr ''bom'' \<in> set bucket"
    by blast+
  with d scale4 show ?thesis by blast
qed

section \<open>The review loader\<close>

text \<open>
  The fourth matching rule removes the character U+0020 only. If it holds, it still holds
  after all whitespace is removed from both sides.
\<close>

lemma remove_spaces_sublist:
  "sublist (remove_spaces q) (remove_spaces n) \<Longrightarrow>
   sublist (filter (\<lambda>c. \<not> isspace c) q) (filter (\<lambda>c. \<not> isspace c) n)"
proof -
  assume "sublist (remove_spaces q) (remove_spaces n)"
  then obtain ps ss where n: "remove_spaces n = ps @ remove_spaces q @ ss"
    by (auto simp: sublist_def)
  have f: "filter (\<lambda>c. \<not> isspace c) (remove_spaces s) = filter (\<lambda>c. \<not> isspace c) s" for s
    by (auto simp: remove_spaces_def isspace_def intro!: filter_cong)
  from n have "filter (\<lambda>c. \<not> isspace c) (remove_spaces n)
                 = filter (\<lambda>c. \<not> isspace c) ps @ filter (\<lambda>c. \<not> isspace c) (remove_spaces q)
                   @ filter (\<lambda>c. \<not> isspace c) ss"
    by simp
  then show ?thesis unfolding f sublist_def by blast
qed

text \<open>
  C6. For every corpus and every query name: if no key of the corpus satisfies any of the
  four matching rules (equality of the normalized names, containment of one in the other,
  containment after removing spaces), \<open>fetch_restaurant_data\<close> returns the query name as
  given with the empty list of sentences, and raises nothing.
\<close>

theorem no_match_empty_result:
  assumes "\<forall>name \<in> fst ` set reviews.
             \<not> (normalize_text L restaurant_name = normalize_text L name
                \<or> sublist (normalize_text L restaurant_name) (normalize_text L name)
                \<or> sublist (normalize_text L name) (normalize_text L restaurant_name)
                \<or> sublist (remove_spaces (normalize_text L restaurant_name))
                           (remove_spaces (normalize_text L name)))"
  shows "fetch_restaurant_data L (Inr reviews) restaurant_name = Inr [(restaurant_name, [])]"
proof -
  let ?q = "normalize_text L restaurant_name"
  have 1: "find (name_matches L ?q) (map fst reviews) = None"
    using assms by (auto simp: find_None_iff name_matches_def Let_def str_in_iff_sublist)
  have 2: "find (\<lambda>name. str_in ?q (normalize_text L name)) (map fst reviews) = None"
    using assms by (auto simp: find_None_iff str_in_iff_sublist)
  from 1 2 have "choose_name L reviews restaurant_name = None"
    by (simp add: choose_name_def Let_def)
  then show ?thesis by (simp add: fetch_restaurant_data_def)
qed

theorem no_match_empty_result_witness:
  "normalize_text latin1_lib (ustr ''pizza'') = ustr ''pizza''
   \<and> normalize_text latin1_lib (ustr ''bistro'') = ustr ''bistro''
   \<and> \<not> sublist (ustr ''pizza'') (ustr ''bistro'')
   \<and> \<not> sublist (ustr ''bistro'') (ustr ''pizza'')
   \<and> fetch_restaurant_data latin1_lib (Inr [(ustr ''bistro'', ustr ''comida boa'')]) (ustr ''pizza'')
       = Inr [(ustr ''pizza'', [])]"
proof -
  have n1: "normalize_text latin1_lib (ustr ''pizza'') = ustr ''pizza''"
    by (rule normalize_latin1_plain) (simp add: ustr_def)
  have n2: "normalize_text latin1_lib (ustr ''bistro'') = ustr ''bistro''"
    by (rule normalize_latin1_plain) (simp add: ustr_def)
  have no: "\<not> (ustr ''pizza'' = ustr ''bistro''
          \<or> sublist (ustr ''pizza'') (ustr ''bistro'')
          \<or> sublist (ustr ''bistro'') (ustr ''pizza'')
          \<or> sublist (remove_spaces (ustr ''pizza'')) (remove_spaces (ustr ''bistro'')))"
    by (simp add: str_in_iff_sublist [symmetric] str_in_def remove_spaces_def ustr_def)
  have h: "\<forall>name \<in> fst ` set [(ustr ''bistro'', ustr ''comida boa'')].
       \<not> (normalize_text latin1_lib (ustr ''pizza'') = normalize_text latin1_lib name
          \<or> sublist (normalize_text latin1_lib (ustr ''pizza'')) (normalize_text latin1_lib name)
          \<or> sublist (normalize_text latin1_lib name) (normalize_text latin1_lib (ustr ''pizza''))
          \<or> sublist (remove_spaces (normalize_text latin1_lib (ustr ''pizza'')))
                     (remove_spaces (normalize_text latin1_lib name)))"
  proof (intro ballI)
    fix name
    assume "name \<in> fst ` set [(ustr ''bistro'', ustr ''comida boa'')]"
    then have name: "name = ustr ''bistro''" by simp
    from no show "\<not> (normalize_text latin1_lib (ustr ''pizza'') = normalize_text latin1_lib name
          \<or> sublist (normalize_text latin1_lib (ustr ''pizza'')) (normalize_text latin1_lib name)
          \<or> sublist (normalize_text latin1_lib name) (normalize_text latin1_lib (ustr ''pizza''))
          \<or> sublist (remove_spaces (normalize_text latin1_lib (ustr ''pizza'')))
                     (remove_spaces (normalize_text latin1_lib name)))"
      unfolding name n1 n2 .
  qed
  from no_match_empty_result [OF h] n1 n2 no show ?thesis by blast
qed

text \<open>
  C3 does not hold of the code: a fragment that consists of terminators only passes the
  emptiness tests, which come before the terminators are stripped, and is returned as the
  empty string. An ellipsis gives two of them.
\<close>

theorem fetch_emits_empty_sentences:
  "fetch_restaurant_data latin1_lib
     (Inr [(ustr ''bistro'', ustr ''comida boa... atendimento ruim'')]) (ustr ''bistro'')
   = Inr [(ustr ''bistro'', [ustr ''comida boa'', [], [], ustr ''atendimento ruim''])]"
proof -
  have n: "normalize_text latin1_lib (ustr ''bistro'') = ustr ''bistro''"
    by (rule normalize_latin1_plain) (simp add: ustr_def)
  have c: "choose_name latin1_lib [(ustr ''bistro'', ustr ''comida boa... atendimento ruim'')]
             (ustr ''bistro'') = Some (ustr ''bistro'')"
    by (simp add: choose_name_def name_matches_def Let_def n)
  have s: "split_sentences (ustr ''comida boa... atendimento ruim'')
             = [ustr ''comida boa'', [], [], ustr ''atendimento ruim'']"
    by (simp add: split_sentences_def split_step_def strip_def lstrip_by_def rstrip_by_def
          rstrip_chars_def isspace_def Let_def ustr_def)
  show ?thesis by (simp add: fetch_restaurant_data_def c s)
qed

section \<open>The text normalizer\<close>















section \<open>The score aggregator\<close>

text \<open>
  Rounding to the nearest float changes a number by at most the fraction \<open>2\<^sup>-\<^sup>5\<^sup>3\<close> of it.
\<close>

lemma round_half_even_error: "\<bar>of_int (round_half_even y) - y\<bar> \<le> 1 / 2"
proof -
  have "of_int \<lfloor>y\<rfloor> \<le> y" "y < of_int \<lfloor>y\<rfloor> + 1" by linarith+
  then show ?thesis
    by (auto simp: round_half_even_def Let_def)
qed

lemma round_half_even_nearest:
  assumes "of_int k - 1 / 2 < y" "y < of_int k + 1 / 2"
  shows "round_half_even y = k"
proof -
  have f: "of_int \<lfloor>y\<rfloor> \<le> y" "y < of_int \<lfloor>y\<rfloor> + 1" by linarith+
  from assms f have "of_int \<lfloor>y\<rfloor> < (of_int k :: real) + 1 / 2" "(of_int k :: real) - 3 / 2 < of_int \<lfloor>y\<rfloor>"
    by linarith+
  then have "\<lfloor>y\<rfloor> < k + 1" "k - 2 < \<lfloor>y\<rfloor>" by linarith+
  then consider "\<lfloor>y\<rfloor> = k" | "\<lfloor>y\<rfloor> = k - 1" by linarith
  then show ?thesis
  proof cases
    case 1
    with assms show ?thesis by (simp add: round_half_even_def Let_def)
  next
    case 2
    with assms show ?thesis by (simp add: round_half_even_def Let_def)
  qed
qed

lemma float_round_error: "\<bar>float_round x - x\<bar> \<le> \<bar>x\<bar> * 2 powr (- 53)"
proof (cases "x = 0")
  case True
  then show ?thesis by (simp add: float_round_def)
next
  case False
  define e where "e = \<lfloor>log 2 \<bar>x\<bar>\<rfloor>"
  define ulp :: real where "ulp = 2 powr (of_int e - 52)"
  define y :: real where "y = x / ulp"
  have ulp_pos: "0 < ulp" by (simp add: ulp_def)
  have fr: "float_round x = of_int (round_half_even y) * ulp"
    using False by (simp add: float_round_def Let_def ulp_def e_def y_def)
  have x: "x = y * ulp" using ulp_pos by (simp add: y_def)
  have "float_round x - x = (of_int (round_half_even y) - y) * ulp"
    by (simp add: fr left_diff_distrib x [symmetric])
  then have "\<bar>float_round x - x\<bar> = \<bar>of_int (round_half_even y) - y\<bar> * ulp"
    using ulp_pos by (simp add: abs_mult)
  also have "\<dots> \<le> 1 / 2 * ulp"
    using round_half_even_error [of y] ulp_pos by (intro mult_right_mono) simp_all
  also have "1 / 2 * ulp = 2 powr of_int e * 2 powr (- 53)"
  proof -
    have "real_of_int e - 52 = real_of_int e + (- 53) + 1" by simp
    then have "(2::real) powr (of_int e - 52) = 2 powr (of_int e + (- 53) + 1)"
      by (rule arg_cong)
    also have "\<dots> = 2 powr of_int e * 2 powr (- 53) * 2"
      by (simp only: powr_add) simp
    finally show ?thesis by (simp add: ulp_def)
  qed
  also have "\<dots> \<le> \<bar>x\<bar> * 2 powr (- 53)"
  proof -
    have "of_int e \<le> log 2 \<bar>x\<bar>" by (simp add: e_def)
    then have "2 powr of_int e \<le> 2 powr log 2 \<bar>x\<bar>" by (simp only: powr_le_cancel_iff) 
    also have "\<dots> = \<bar>x\<bar>" using False by simp
    finally show ?thesis by (intro mult_right_mono) simp_all
  qed
  finally show ?thesis .
qed

lemma unit_roundoff: "(2::real) powr (- 53) \<le> 1 / 10 ^ 15"
proof -
  have "(2::real) powr (- 53) = 1 / 2 ^ 53"
    by (simp add: powr_minus_divide powr_realpow [symmetric])
  also have "\<dots> \<le> 1 / 10 ^ 15" by simp
  finally show ?thesis .
qed

lemma float_round_between:
  assumes "0 < lo" "lo \<le> x" "x \<le> hi"
  shows "lo - lo / 10 ^ 15 \<le> float_round x" and "float_round x \<le> hi + hi / 10 ^ 15"
proof -
  from assms have x: "0 < x" by simp
  have "\<bar>float_round x - x\<bar> \<le> x / 10 ^ 15"
  proof -
    have "\<bar>float_round x - x\<bar> \<le> \<bar>x\<bar> * 2 powr (- 53)" by (rule float_round_error)
    also have "\<dots> \<le> \<bar>x\<bar> * (1 / 10 ^ 15)"
      by (intro mult_left_mono unit_roundoff) simp
    finally show ?thesis using x by simp
  qed
  then have b: "x - x / 10 ^ 15 \<le> float_round x" "float_round x \<le> x + x / 10 ^ 15"
    by linarith+
  have "lo - lo / 10 ^ 15 \<le> x - x / 10 ^ 15" using assms(2) by simp
  with b(1) show "lo - lo / 10 ^ 15 \<le> float_round x" by linarith
  have "x + x / 10 ^ 15 \<le> hi + hi / 10 ^ 15" using assms(3) by simp
  with b(2) show "float_round x \<le> hi + hi / 10 ^ 15" by linarith
qed

text \<open>
  The example of the docstring, with the error of every rounding carried along: the score
  before formatting lies between 5.36656 and 5.36657, so it is formatted as 5.367.
\<close>

lemma overall_score_3_4:
  "calculate_overall_score name [3] [4] = Inr [(name, float_of_3f 5367)]"
proof -
  define f where "f = float_round 3"
  define s where "s = float_round 4"
  define r where "r = float_round (sqrt s)"
  define p where "p = float_round (\<bar>f\<bar> * r)"
  define t where "t = float_round p"
  define t10 where "t10 = float_round (t * 10)"
  define sq where "sq = float_round (sqrt 125)"
  define n where "n = float_round 1"
  define den where "den = float_round (n * sq)"
  define score where "score = float_round (t10 / den)"
  have f: "3 - 1 / 10 ^ 9 \<le> f" "f \<le> 3 + 1 / 10 ^ 9"
    using float_round_between [of 3 3 3] by (simp_all add: f_def)
  have s: "4 - 1 / 10 ^ 9 \<le> s" "s \<le> 4 + 1 / 10 ^ 9"
    using float_round_between [of 4 4 4] by (simp_all add: s_def)
  have sqrt_s: "2 - 1 / 10 ^ 9 \<le> sqrt s" "sqrt s \<le> 2 + 1 / 10 ^ 9"
  proof -
    have "(2 - 1 / 10 ^ 9)\<^sup>2 \<le> s" using s(1) by (simp add: power2_eq_square)
    then show "2 - 1 / 10 ^ 9 \<le> sqrt s" by (rule real_le_rsqrt)
    have "s \<le> (2 + 1 / 10 ^ 9)\<^sup>2" using s(2) by (simp add: power2_eq_square)
    then show "sqrt s \<le> 2 + 1 / 10 ^ 9" by (intro real_le_lsqrt) simp_all
  qed
  have r: "2 - 2 / 10 ^ 9 \<le> r" "r \<le> 2 + 2 / 10 ^ 9"
    using float_round_between [of "2 - 1 / 10 ^ 9" "sqrt s" "2 + 1 / 10 ^ 9"] sqrt_s
    by (simp_all add: r_def)
  have fr: "6 - 8 / 10 ^ 9 \<le> \<bar>f\<bar> * r" "\<bar>f\<bar> * r \<le> 6 + 9 / 10 ^ 9"
  proof -
    have af: "\<bar>f\<bar> = f" using f(1) by simp
    have "(3 - 1 / 10 ^ 9) * (2 - 2 / 10 ^ 9) \<le> f * r"
      using f(1) r(1) by (intro mult_mono) simp_all
    then show "6 - 8 / 10 ^ 9 \<le> \<bar>f\<bar> * r" by (simp add: af)
    have "f * r \<le> (3 + 1 / 10 ^ 9) * (2 + 2 / 10 ^ 9)"
      using f r by (intro mult_mono) simp_all
    then show "\<bar>f\<bar> * r \<le> 6 + 9 / 10 ^ 9" by (simp add: af)
  qed
  have p: "6 - 9 / 10 ^ 9 \<le> p" "p \<le> 6 + 10 / 10 ^ 9"
    using float_round_between [of "6 - 8 / 10 ^ 9" "\<bar>f\<bar> * r" "6 + 9 / 10 ^ 9"] fr
    by (simp_all add: p_def)
  have t: "6 - 10 / 10 ^ 9 \<le> t" "t \<le> 6 + 11 / 10 ^ 9"
    using float_round_between [of "6 - 9 / 10 ^ 9" p "6 + 10 / 10 ^ 9"] p
    by (simp_all add: t_def)
  have t10: "60 - 101 / 10 ^ 9 \<le> t10" "t10 \<le> 60 + 111 / 10 ^ 9"
    using float_round_between [of "60 - 100 / 10 ^ 9" "t * 10" "60 + 110 / 10 ^ 9"] t
    by (simp_all add: t10_def)
  have sqrt125: "1118033988 / 10 ^ 8 \<le> sqrt 125" "sqrt 125 \<le> 1118033989 / 10 ^ 8"
  proof -
    have "(1118033988 / 10 ^ 8)\<^sup>2 \<le> (125::real)" by (simp add: power2_eq_square)
    then show "1118033988 / 10 ^ 8 \<le> sqrt 125" by (rule real_le_rsqrt)
    have "(125::real) \<le> (1118033989 / 10 ^ 8)\<^sup>2" by (simp add: power2_eq_square)
    then show "sqrt 125 \<le> 1118033989 / 10 ^ 8" by (intro real_le_lsqrt) simp_all
  qed
  have sq: "1118033987 / 10 ^ 8 \<le> sq" "sq \<le> 1118033990 / 10 ^ 8"
    using float_round_between [of "1118033988 / 10 ^ 8" "sqrt 125" "1118033989 / 10 ^ 8"] sqrt125
    by (simp_all add: sq_def)
  have n: "1 - 1 / 10 ^ 9 \<le> n" "n \<le> 1 + 1 / 10 ^ 9"
    using float_round_between [of 1 1 1] by (simp_all add: n_def)
  have nsq: "1118033985 / 10 ^ 8 \<le> n * sq" "n * sq \<le> 1118033992 / 10 ^ 8"
  proof -
    have "(1 - 1 / 10 ^ 9) * (1118033987 / 10 ^ 8) \<le> n * sq"
      using n(1) sq(1) by (intro mult_mono) simp_all
    then show "1118033985 / 10 ^ 8 \<le> n * sq" by simp
    have "n * sq \<le> (1 + 1 / 10 ^ 9) * (1118033990 / 10 ^ 8)"
      using n sq by (intro mult_mono) simp_all
    then show "n * sq \<le> 1118033992 / 10 ^ 8" by simp
  qed
  have den: "1118033984 / 10 ^ 8 \<le> den" "den \<le> 1118033993 / 10 ^ 8"
    using float_round_between [of "1118033985 / 10 ^ 8" "n * sq" "1118033992 / 10 ^ 8"] nsq
    by (simp_all add: den_def)
  have q: "536656 / 10 ^ 5 \<le> t10 / den" "t10 / den \<le> 536657 / 10 ^ 5"
  proof -
    have "(60 - 101 / 10 ^ 9) / (1118033993 / 10 ^ 8) \<le> t10 / den"
      using t10(1) den by (intro frac_le) simp_all
    then show "536656 / 10 ^ 5 \<le> t10 / den" by simp
    have "t10 / den \<le> (60 + 111 / 10 ^ 9) / (1118033984 / 10 ^ 8)"
      using t10 den by (intro frac_le) simp_all
    then show "t10 / den \<le> 536657 / 10 ^ 5" by simp
  qed
  have score: "53665 / 10 ^ 4 < score" "score < 53675 / 10 ^ 4"
    using float_round_between [of "536656 / 10 ^ 5" "t10 / den" "536657 / 10 ^ 5"] q
    by (simp_all add: score_def)
  have fmt: "format_3f score = 5367"
    unfolding format_3f_def using score by (intro round_half_even_nearest) simp_all
  have s0: "\<not> s < 0" using s(1) by simp
  have d0: "den \<noteq> 0" using den(1) by simp
  have "calculate_overall_score name [3] [4] = Inr [(name, float_of_3f (format_3f score))]"
    using s0 d0
    by (simp add: calculate_overall_score_def add_pair_def math_sqrt_def Let_def
          score_def [symmetric] den_def [symmetric] n_def [symmetric] sq_def [symmetric]
          t10_def [symmetric] t_def [symmetric] p_def [symmetric] r_def [symmetric]
          s_def [symmetric] f_def [symmetric])
  then show ?thesis by (simp only: fmt)
qed

lemma float_of_3f_distinct: "float_of_3f 5367 \<noteq> float_of_3f 5366"
proof -
  have "5367 / 1000 - (5367 / 1000) / 10 ^ 15 \<le> float_of_3f 5367"
    using float_round_between(1) [of "5367 / 1000" "5367 / 1000" "5367 / 1000"]
    by (simp add: float_of_3f_def)
  moreover have "float_of_3f 5366 \<le> 5366 / 1000 + (5366 / 1000) / 10 ^ 15"
    using float_round_between(2) [of "5366 / 1000" "5366 / 1000" "5366 / 1000"]
    by (simp add: float_of_3f_def)
  ultimately show ?thesis by simp
qed

text \<open>
  C1 does not hold of the code. For \<open>restaurant_name = "Exemplo"\<close>, \<open>food_scores = [3]\<close>
  and \<open>customer_service_scores = [4]\<close> the value \<open>total * 10 / (N * sqrt 125)\<close>, with
  \<open>total = |3| * sqrt 4\<close> and \<open>N = 1\<close>, is 5.36656...; the aggregator formats it to three
  decimal places and returns \<open>{"Exemplo": 5.367}\<close>, which is not the \<open>{"Exemplo": 5.366}\<close>
  of the claim and of the example in the function's docstring.
\<close>

theorem overall_score_exemplo:
  "calculate_overall_score (ustr ''Exemplo'') [3] [4] = Inr [(ustr ''Exemplo'', float_of_3f 5367)]
   \<and> calculate_overall_score (ustr ''Exemplo'') [3] [4]
       \<noteq> Inr [(ustr ''Exemplo'', float_of_3f 5366)]"
  using float_of_3f_distinct by (simp add: overall_score_3_4)

end
